theory Spec2Isabelle
  imports Main "HOL-Library.Word" "HOL-Library.AList"
begin

section \<open>The ZooKeeper connection engine of \<^verbatim>\<open>conn.go\<close>\<close>

text \<open>
  A shallow embedding of the session-bearing connection engine. The connection object
  is a record that every operation takes and returns. Go channels are heap objects:
  a channel is named by the number it was allocated under, and every send on a
  subscriber sink or on a completion sink is appended to a log kept in the state.
  The two Go maps (pending requests, watch registry) are association lists with
  distinct keys; the order of the list stands for the order in which a \<^verbatim>\<open>range\<close>
  visits the map, which Go leaves open, so nothing below depends on it.
\<close>

subsection \<open>Data model\<close>

type_synonym int32 = "32 word"
type_synonym int64 = "64 word"
type_synonym chan = nat

text \<open>
  Modelled from the spec: the error values, the states, the event types, the opcodes
  and the create flags are declared outside \<^verbatim>\<open>conn.go\<close>. The datatypes below hold the
  names \<^verbatim>\<open>conn.go\<close> uses and the specification lists. \<open>ErrOther\<close> stands for every other
  Go error value (serialisation failures, socket errors), told apart by its message;
  \<open>EventOther\<close> stands for any other value a frame may carry in its type field.
\<close>

datatype error = ErrConnectionClosed | ErrSessionExpired | ErrNoNode | EOF | ErrOther string

datatype State =
  StateDisconnected | StateConnecting | StateConnected | StateHasSession | StateExpired
  | StateAuthFailed

datatype EventType =
  EventNodeCreated | EventNodeDeleted | EventNodeDataChanged | EventNodeChildrenChanged
  | EventSession | EventNotWatching | EventOther

datatype opcode =
  opClose | opPing | opSetWatches | opSetAuth | opGetChildren2 | opGetData | opSetData
  | opCreate | opDelete | opExists | opGetAcl | opSetAcl

datatype watcherType = watcherTypeData | watcherTypeExist | watcherTypeChild

record Event =
  Type :: EventType
  State :: State
  Path :: string
  Err :: "error option"

record watchers =
  dataWatchers :: "chan list"
  existWatchers :: "chan list"
  childWatchers :: "chan list"

text \<open>
  A request: the packet and the response target are opaque to the engine and left out;
  \<open>recvChan\<close> is the one-shot completion sink. (The fields \<^verbatim>\<open>xid\<close> and \<^verbatim>\<open>opcode\<close> are
  \<open>rxid\<close> and \<open>ropcode\<close> here, since the connection has a field \<^verbatim>\<open>xid\<close> of its own.)
\<close>

record request =
  rxid :: int32
  ropcode :: opcode
  recvChan :: chan

record Conn =
  state :: State
  eventChan :: "Event list"
  sendChan :: "request list"
  requests :: "(int32 \<times> request) list"
  watchers :: "(string \<times> watchers) list"
  xid :: int32
  lastZxid :: int64
  sessionId :: int64
  timeout :: int32
  passwd :: "8 word list"
  nextChan :: chan
  sinkLog :: "(chan \<times> Event) list"
  recvLog :: "(chan \<times> error option) list"

definition eventChanSize :: nat where
  "eventChanSize = 6"

definition sendChanSize :: nat where
  "sendChanSize = 16"

definition protectedPrefix :: string where
  "protectedPrefix = ''_c_''"

text \<open>
  Modelled from the spec: \<^verbatim>\<open>emptyPassword\<close> is declared outside \<^verbatim>\<open>conn.go\<close>; the
  spec calls it the empty credential.
\<close>

definition emptyPassword :: "8 word list" where
  "emptyPassword = []"

text \<open>
  The connection object as \<^verbatim>\<open>Connect\<close> initialises it (the server list, the socket and
  the timing parameters play no part below and are left out).
\<close>

definition Connect :: Conn where
  "Connect = \<lparr>state = StateDisconnected, eventChan = [], sendChan = [], requests = [],
     watchers = [], xid = 0, lastZxid = 0, sessionId = 0, timeout = 30000,
     passwd = emptyPassword, nextChan = 0, sinkLog = [], recvLog = []\<rparr>"

subsection \<open>Watch registry: adding a watcher\<close>

text \<open>\<^verbatim>\<open>make(chan Event, 1)\<close>: a fresh channel.\<close>

definition make_chan :: "Conn \<Rightarrow> chan \<times> Conn" where
  "make_chan c = (nextChan c, c\<lparr>nextChan := Suc (nextChan c)\<rparr>)"

definition new_watchers :: watchers where
  "new_watchers = \<lparr>dataWatchers = [], existWatchers = [], childWatchers = []\<rparr>"

definition addWatcher :: "string \<Rightarrow> watcherType \<Rightarrow> Conn \<Rightarrow> chan \<times> Conn" where
  "addWatcher path wt c =
     (let (ch, c1) = make_chan c;
          wat = (case map_of (watchers c1) path of None \<Rightarrow> new_watchers | Some w \<Rightarrow> w);
          wat' = (case wt of
                    watcherTypeChild \<Rightarrow> wat\<lparr>childWatchers := childWatchers wat @ [ch]\<rparr>
                  | watcherTypeData \<Rightarrow> wat\<lparr>dataWatchers := dataWatchers wat @ [ch]\<rparr>
                  | watcherTypeExist \<Rightarrow> wat\<lparr>existWatchers := existWatchers wat @ [ch]\<rparr>)
      in (ch, c1\<lparr>watchers := AList.update path wat' (watchers c1)\<rparr>))"

subsection \<open>Exists and ExistsW\<close>

text \<open>
  Both facades run one \<^verbatim>\<open>opExists\<close> request through the engine and look at the error it
  completes with. The outcome of that request (the decoded stat and the error) is the
  argument \<open>(stat, err)\<close>.
\<close>

definition Exists :: "'stat \<times> error option \<Rightarrow> bool \<times> 'stat \<times> error option" where
  "Exists outcome =
     (let (stat, err) = outcome;
          exists = True;
          (exists, err) = (if err = Some ErrNoNode then (False, None) else (exists, err))
      in (exists, stat, err))"

definition ExistsW ::
  "string \<Rightarrow> 'stat \<times> error option \<Rightarrow> Conn \<Rightarrow> (bool \<times> 'stat \<times> chan option \<times> error option) \<times> Conn"
where
  "ExistsW path outcome c =
     (let (stat, err) = outcome;
          exists = True;
          (exists, err) = (if err = Some ErrNoNode then (False, None) else (exists, err))
      in if err = None then
           (let (ech, c') = (if exists then addWatcher path watcherTypeData c
                             else addWatcher path watcherTypeExist c)
            in ((exists, stat, Some ech, err), c'))
         else ((exists, stat, None, err), c))"

subsection \<open>Channel sends\<close>

text \<open>
  \<^verbatim>\<open>ch <- ev\<close> on a subscriber sink and \<^verbatim>\<open>req.recvChan <- err\<close> on a completion sink are
  recorded in the logs. The event channel of the application is sent to without
  blocking: the event is dropped when \<open>eventChanSize\<close> events wait in it.
\<close>

definition send_event :: "chan \<Rightarrow> Event \<Rightarrow> Conn \<Rightarrow> Conn" where
  "send_event ch ev c = c\<lparr>sinkLog := sinkLog c @ [(ch, ev)]\<rparr>"

definition fire :: "chan list \<Rightarrow> Event \<Rightarrow> Conn \<Rightarrow> Conn" where
  "fire chs ev c = fold (\<lambda>ch. send_event ch ev) chs c"

definition send_error :: "chan \<Rightarrow> error option \<Rightarrow> Conn \<Rightarrow> Conn" where
  "send_error ch err c = c\<lparr>recvLog := recvLog c @ [(ch, err)]\<rparr>"

definition publish :: "Event \<Rightarrow> Conn \<Rightarrow> Conn" where
  "publish ev c =
     (if length (eventChan c) < eventChanSize then c\<lparr>eventChan := eventChan c @ [ev]\<rparr>
      else c)"

definition setState :: "State \<Rightarrow> Conn \<Rightarrow> Conn" where
  "setState st c =
     publish \<lparr>Type = EventSession, State = st, Path = [], Err = None\<rparr> (c\<lparr>state := st\<rparr>)"

text \<open>What a sink has been sent so far, oldest first.\<close>

definition sink_events :: "Conn \<Rightarrow> chan \<Rightarrow> Event list" where
  "sink_events c ch = map snd (filter (\<lambda>x. fst x = ch) (sinkLog c))"

definition deliveries :: "Conn \<Rightarrow> chan \<Rightarrow> error option list" where
  "deliveries c ch = map snd (filter (\<lambda>x. fst x = ch) (recvLog c))"

subsection \<open>Receive pipeline\<close>

text \<open>
  The response header (its field \<^verbatim>\<open>Err\<close> is \<open>ErrCode\<close> here, and the fields of the watch
  event body carry a \<open>w\<close>, since \<open>Event\<close> has the plain names).
\<close>

record responseHeader =
  Xid :: int32
  Zxid :: int64
  ErrCode :: int32

record watcherEvent =
  wType :: EventType
  wState :: State
  wPath :: string

text \<open>
  One frame as the decoder sees it: the header decoded from the first 16 bytes, the
  body decoded as a watch event (read when \<open>Xid = -1\<close>), and the outcome of decoding
  the body into the waiter's response target (read for a request response).
\<close>

record frame =
  header :: "error + responseHeader"
  event :: "error + watcherEvent"
  body :: "error option"

text \<open>Lines 454 to 491: publish the event and dispatch it to the path's subscribers.\<close>

definition recvLoop_event :: "watcherEvent \<Rightarrow> Conn \<Rightarrow> Conn" where
  "recvLoop_event res c =
     (let ev = \<lparr>Type = wType res, State = wState res, Path = wPath res, Err = None\<rparr>;
          c1 = publish ev c
      in case map_of (watchers c1) (wPath res) of
           None \<Rightarrow> c1
         | Some wat \<Rightarrow>
             (let (c2, wat') =
                (if wType res = EventNodeCreated then
                   (fire (existWatchers wat) ev c1, wat\<lparr>existWatchers := []\<rparr>)
                 else if wType res = EventNodeDeleted \<or> wType res = EventNodeDataChanged then
                   (fire (dataWatchers wat) ev (fire (existWatchers wat) ev c1),
                    wat\<lparr>existWatchers := [], dataWatchers := []\<rparr>)
                 else if wType res = EventNodeChildrenChanged then
                   (fire (childWatchers wat) ev c1, wat\<lparr>childWatchers := []\<rparr>)
                 else (c1, wat))
              in if length (childWatchers wat') + length (dataWatchers wat')
                      + length (existWatchers wat') = 0
                 then c2\<lparr>watchers := AList.delete (wPath res) (watchers c2)\<rparr>
                 else c2\<lparr>watchers := AList.update (wPath res) wat' (watchers c2)\<rparr>))"

text \<open>
  Lines 497 to 520: a request response. The result is \<open>Some e\<close> when the loop returns
  \<open>e\<close> and \<open>None\<close> when it goes on to the next frame. \<open>toError\<close> is the table from error
  codes to error values, declared outside \<^verbatim>\<open>conn.go\<close>.
\<close>

definition recvLoop_response ::
  "(int32 \<Rightarrow> error) \<Rightarrow> responseHeader \<Rightarrow> error option \<Rightarrow> Conn \<Rightarrow> error option \<times> Conn"
where
  "recvLoop_response toError res decoded c =
     (let c1 = (if 0 <s Zxid res then c\<lparr>lastZxid := Zxid res\<rparr> else c)
      in case map_of (requests c1) (Xid res) of
           None \<Rightarrow> (None, c1)
         | Some req \<Rightarrow>
             (let c2 = c1\<lparr>requests := AList.delete (Xid res) (requests c1)\<rparr>;
                  err = (if ErrCode res \<noteq> 0 then Some (toError (ErrCode res)) else decoded);
                  c3 = send_error (recvChan req) err c2
              in (if ropcode req = opClose then Some EOF else None, c3)))"

text \<open>
  One pass of the loop body. The argument is what the two reads give: \<open>Inl e\<close> when
  reading the length or the body fails, the frame otherwise.
\<close>

definition recvLoop_step ::
  "(int32 \<Rightarrow> error) \<Rightarrow> error + frame \<Rightarrow> Conn \<Rightarrow> error option \<times> Conn"
where
  "recvLoop_step toError rd c =
     (case rd of
        Inl e \<Rightarrow> (Some e, c)
      | Inr fr \<Rightarrow>
          (case header fr of
             Inl e \<Rightarrow> (Some e, c)
           | Inr res \<Rightarrow>
               if Xid res = - 1 then
                 (case event fr of
                    Inl e \<Rightarrow> (Some e, c)
                  | Inr wev \<Rightarrow> (None, recvLoop_event wev c))
               else if Xid res = - 2 then (None, c)
               else if Xid res <s 0 then (None, c)
               else recvLoop_response toError res (body fr) c))"

text \<open>
  The loop over what the socket delivers. A socket that has nothing more to deliver
  has been closed: the read fails with \<open>EOF\<close>.
\<close>

fun recvLoop :: "(int32 \<Rightarrow> error) \<Rightarrow> (error + frame) list \<Rightarrow> Conn \<Rightarrow> error \<times> Conn" where
  "recvLoop toError [] c = (EOF, c)"
| "recvLoop toError (rd # rds) c =
     (case recvLoop_step toError rd c of
        (Some e, c') \<Rightarrow> (e, c')
      | (None, c') \<Rightarrow> recvLoop toError rds c')"

subsection \<open>Handshake\<close>

record setWatchesRequest =
  RealtiveZxid :: int64
  DataWatches :: "string list"
  ExistWatches :: "string list"
  ChildWatches :: "string list"

text \<open>
  The body of the \<^verbatim>\<open>range\<close> loop of \<^verbatim>\<open>sendSetWatches\<close>, on the request and the byte
  count so far. (\<^verbatim>\<open>pathLen\<close> is a Go \<^verbatim>\<open>int\<close>; the paths of a registry do not add up to
  \<open>2 ^ 63\<close> bytes, so it is a natural number here.)
\<close>

definition sendSetWatches_path ::
  "string \<times> watchers \<Rightarrow> setWatchesRequest \<times> nat \<Rightarrow> setWatchesRequest \<times> nat"
where
  "sendSetWatches_path pw acc =
     (let (path, wat) = pw;
          (req, pathLen) = acc;
          (req, pathLen) =
            (if length (dataWatchers wat) \<noteq> 0
             then (req\<lparr>DataWatches := DataWatches req @ [path]\<rparr>, pathLen + length path)
             else (req, pathLen));
          (req, pathLen) =
            (if length (existWatchers wat) \<noteq> 0
             then (req\<lparr>ExistWatches := ExistWatches req @ [path]\<rparr>, pathLen + length path)
             else (req, pathLen));
          (req, pathLen) =
            (if length (childWatchers wat) \<noteq> 0
             then (req\<lparr>ChildWatches := ChildWatches req @ [path]\<rparr>, pathLen + length path)
             else (req, pathLen))
      in (req, pathLen))"

text \<open>
  \<^verbatim>\<open>sendSetWatches\<close> hands the request it has built to a new goroutine, which submits it
  with \<^verbatim>\<open>opSetWatches\<close> like any other request. The result is that request, or \<open>None\<close>
  when the function returns without starting the goroutine.
\<close>

definition sendSetWatches :: "Conn \<Rightarrow> setWatchesRequest option" where
  "sendSetWatches c =
     (if length (watchers c) = 0 then None
      else
        (let req = \<lparr>RealtiveZxid = lastZxid c, DataWatches = [], ExistWatches = [],
                    ChildWatches = []\<rparr>;
             (req, pathLen) = fold sendSetWatches_path (watchers c) (req, 0)
         in if pathLen = 0 then None else Some req))"

record connectResponse =
  TimeOut :: int32
  SessionId :: int64
  Passwd :: "8 word list"

text \<open>
  What the socket and the codec do during the handshake: the connect request fails to
  encode, the write fails, one of the two reads fails, the response fails to decode,
  or a connect response arrives.
\<close>

datatype handshake =
  EncodeFailed error | WriteFailed error | ReadFailed error | DecodeFailed error
  | Reply connectResponse

text \<open>
  The result is the error returned, the set-watches request handed to the goroutine
  (if any), and the connection.
\<close>

definition authenticate ::
  "handshake \<Rightarrow> Conn \<Rightarrow> error option \<times> setWatchesRequest option \<times> Conn"
where
  "authenticate io c =
     (case io of
        EncodeFailed e \<Rightarrow> (Some e, None, c)
      | WriteFailed e \<Rightarrow> (Some e, None, c)
      | ReadFailed e \<Rightarrow> (Some e, sendSetWatches c, c)
      | DecodeFailed e \<Rightarrow> (Some e, sendSetWatches c, c)
      | Reply r \<Rightarrow>
          if SessionId r = 0 then
            (Some ErrSessionExpired, sendSetWatches c,
             setState StateExpired (c\<lparr>sessionId := 0, passwd := emptyPassword\<rparr>))
          else
            (let c1 = (if sessionId c \<noteq> SessionId r then c\<lparr>xid := 0\<rparr> else c);
                 c2 = c1\<lparr>timeout := TimeOut r, sessionId := SessionId r, passwd := Passwd r\<rparr>
             in (None, sendSetWatches c, setState StateHasSession c2)))"

subsection \<open>Submitting a request\<close>

definition nextXid :: "Conn \<Rightarrow> int32 \<times> Conn" where
  "nextXid c = (xid c + 1, c\<lparr>xid := xid c + 1\<rparr>)"

text \<open>
  \<^verbatim>\<open>queueRequest\<close> builds the request and pushes it on the send queue. A push on a full
  queue waits; Go serves waiting senders in arrival order, so for the send pipeline the
  queue and its waiting senders are one first-in first-out list, which is \<open>sendChan\<close>.
\<close>

definition new_request :: "opcode \<Rightarrow> Conn \<Rightarrow> request \<times> Conn" where
  "new_request oc c =
     (let (x, c1) = nextXid c;
          (ch, c2) = make_chan c1
      in (\<lparr>rxid = x, ropcode = oc, recvChan = ch\<rparr>, c2))"

definition queueRequest :: "opcode \<Rightarrow> Conn \<Rightarrow> chan \<times> Conn" where
  "queueRequest oc c =
     (let (rq, c1) = new_request oc c
      in (recvChan rq, c1\<lparr>sendChan := sendChan c1 @ [rq]\<rparr>))"

text \<open>
  A stretch of the connection's life as the counter sees it: requests are submitted
  and handshakes run, in some order. \<open>assigned_xids\<close> lists the xids the submitted
  requests get.
\<close>

datatype session_op = Submit opcode | Handshake handshake

fun assigned_xids :: "session_op list \<Rightarrow> Conn \<Rightarrow> int32 list" where
  "assigned_xids [] c = []"
| "assigned_xids (Submit oc # ops) c =
     rxid (fst (new_request oc c)) # assigned_xids ops (snd (queueRequest oc c))"
| "assigned_xids (Handshake io # ops) c = assigned_xids ops (snd (snd (authenticate io c)))"

text \<open>The number of requests submitted in a stretch.\<close>

fun submits :: "session_op list \<Rightarrow> nat" where
  "submits [] = 0"
| "submits (Submit oc # ops) = Suc (submits ops)"
| "submits (Handshake io # ops) = submits ops"

text \<open>
  A step stays within session \<open>s\<close> when it is not a handshake whose connect response
  carries another session id.
\<close>

fun same_session :: "int64 \<Rightarrow> session_op \<Rightarrow> bool" where
  "same_session s (Handshake (Reply r)) = (SessionId r = s)"
| "same_session s _ = True"

subsection \<open>The set-watches snapshot the specification describes\<close>

text \<open>
  Written from the specification, to be compared with \<open>sendSetWatches\<close>: the paths whose
  sequence of one kind is not empty, and the bytes of all paths included, a path
  counting once for each kind it is included under.
\<close>

definition watched_paths ::
  "(watchers \<Rightarrow> chan list) \<Rightarrow> (string \<times> watchers) list \<Rightarrow> string list"
where
  "watched_paths kind reg = map fst (filter (\<lambda>pw. kind (snd pw) \<noteq> []) reg)"

definition included_bytes :: "(string \<times> watchers) list \<Rightarrow> nat" where
  "included_bytes reg =
     (\<Sum>pw\<leftarrow>reg. (if dataWatchers (snd pw) \<noteq> [] then length (fst pw) else 0)
               + (if existWatchers (snd pw) \<noteq> [] then length (fst pw) else 0)
               + (if childWatchers (snd pw) \<noteq> [] then length (fst pw) else 0))"

subsection \<open>Invalidating the watches, flushing the requests\<close>

definition invalidateWatches_path :: "error \<Rightarrow> string \<times> watchers \<Rightarrow> Conn \<Rightarrow> Conn" where
  "invalidateWatches_path err pw c =
     (let (path, wat) = pw;
          ev = \<lparr>Type = EventNotWatching, State = StateDisconnected, Path = path,
                Err = Some err\<rparr>
      in fire (existWatchers wat) ev (fire (childWatchers wat) ev (fire (dataWatchers wat) ev c)))"

definition invalidateWatches :: "error \<Rightarrow> Conn \<Rightarrow> Conn" where
  "invalidateWatches err c =
     (if 0 \<le> length (watchers c)
      then (fold (invalidateWatches_path err) (watchers c) c)\<lparr>watchers := []\<rparr>
      else c)"

definition flushRequests :: "error \<Rightarrow> Conn \<Rightarrow> Conn" where
  "flushRequests err c =
     (fold (\<lambda>xr. send_error (recvChan (snd xr)) (Some err)) (requests c) c)\<lparr>requests := []\<rparr>"

subsection \<open>Send pipeline\<close>

text \<open>
  What the codec and the socket do with one request: the error (if any) of encoding
  the header, of encoding the body, and of the write.
\<close>

record send_io =
  headerErr :: "error option"
  bodyErr :: "error option"
  writeErr :: "error option"

text \<open>
  Lines 366 to 400: the request \<open>req\<close> has been taken from the send queue. \<open>closing\<close>
  says whether \<^verbatim>\<open>closeChan\<close> is closed. The result is \<open>None\<close> when the loop goes on and
  \<open>Some e\<close> when it returns \<open>e\<close>.
\<close>

definition sendLoop_request ::
  "send_io \<Rightarrow> bool \<Rightarrow> request \<Rightarrow> Conn \<Rightarrow> error option \<times> Conn"
where
  "sendLoop_request io closing req c =
     (case headerErr io of
        Some e \<Rightarrow> (None, send_error (recvChan req) (Some e) c)
      | None \<Rightarrow>
     (case bodyErr io of
        Some e \<Rightarrow> (None, send_error (recvChan req) (Some e) c)
      | None \<Rightarrow>
          if closing then
            (Some ErrConnectionClosed, send_error (recvChan req) (Some ErrConnectionClosed) c)
          else
            (let c1 = c\<lparr>requests := AList.update (rxid req) req (requests c)\<rparr>
             in case writeErr io of
                  Some e \<Rightarrow> (Some e, send_error (recvChan req) (Some e) c1)
                | None \<Rightarrow> (None, c1))))"

subsection \<open>Session loop\<close>

text \<open>
  The two pipelines and the callers run side by side; what they do to the connection
  is a sequence of steps, each of them atomic (a caller's submission, a caller's
  \<^verbatim>\<open>addWatcher\<close>, the send pipeline handling one request or one ping, the receive
  pipeline handling one frame). The schedule lists the steps in the order they take
  effect; any order is allowed. Beside the connection, the state of a run says whether
  the send pipeline is still running, and the error the receive pipeline has returned
  (\<open>None\<close> while it runs). The receive pipeline's return closes \<^verbatim>\<open>closeChan\<close>. A step
  of a pipeline that has stopped, or a \<open>SendReq\<close> on an empty queue, does nothing; a
  ping changes nothing, and ends the send pipeline when its write fails.
\<close>

datatype step =
  Queue opcode
  | Watch string watcherType
  | SendReq send_io
  | Ping "error option"
  | Recv "error + frame"

fun pipeline_step ::
  "(int32 \<Rightarrow> error) \<Rightarrow> step \<Rightarrow> Conn \<times> bool \<times> error option \<Rightarrow> Conn \<times> bool \<times> error option"
where
  "pipeline_step toError (Queue oc) (c, sending, r) = (snd (queueRequest oc c), sending, r)"
| "pipeline_step toError (Watch path wt) (c, sending, r) = (snd (addWatcher path wt c), sending, r)"
| "pipeline_step toError (SendReq io) (c, sending, r) =
     (if sending then
        (case sendChan c of
           [] \<Rightarrow> (c, sending, r)
         | req # queue \<Rightarrow>
             (case sendLoop_request io (r \<noteq> None) req (c\<lparr>sendChan := queue\<rparr>) of
                (None, c') \<Rightarrow> (c', True, r)
              | (Some e, c') \<Rightarrow> (c', False, r)))
      else (c, sending, r))"
| "pipeline_step toError (Ping w) (c, sending, r) =
     (if sending \<and> w \<noteq> None then (c, False, r) else (c, sending, r))"
| "pipeline_step toError (Recv rd) (c, sending, r) =
     (if r = None then (case recvLoop_step toError rd c of (e, c') \<Rightarrow> (c', sending, e))
      else (c, sending, r))"

text \<open>
  A schedule run to its end. \<open>err\<close> is the result of the handshake: the pipelines run
  only when it is \<open>None\<close>, and otherwise only the callers' steps take effect. When the
  schedule is over and the receive pipeline still runs, the socket has nothing more to
  deliver and the pipeline returns \<open>EOF\<close>; the send pipeline then leaves through
  \<^verbatim>\<open>closeChan\<close>. The result is the value of the session loop's variable \<^verbatim>\<open>err\<close> after
  the pipelines, and the connection.
\<close>

definition run_schedule ::
  "(int32 \<Rightarrow> error) \<Rightarrow> error option \<Rightarrow> step list \<Rightarrow> Conn \<Rightarrow> error \<times> Conn"
where
  "run_schedule toError err steps c =
     (case fold (pipeline_step toError) steps (c, err = None, err) of
        (c', sending, r) \<Rightarrow> (case r of None \<Rightarrow> EOF | Some e \<Rightarrow> e, c'))"

text \<open>
  \<^verbatim>\<open>connect\<close> with a dial that succeeds at some attempt: the failed attempts move the
  server cursor only, which is not part of the model. (While no server answers,
  \<^verbatim>\<open>connect\<close> does not return and the pass does not take place.)
\<close>

definition connect :: "Conn \<Rightarrow> Conn" where
  "connect c = setState StateConnected (setState StateConnecting c)"

record pass =
  hs :: handshake
  schedule :: "step list"

text \<open>
  One pass of the body of \<^verbatim>\<open>loop\<close>, in two parts: \<open>pass_body\<close> up to the point where
  both pipelines have stopped (line 186), with the value of \<^verbatim>\<open>err\<close> there, and \<open>loop_pass\<close>
  the whole pass up to the check of \<^verbatim>\<open>shouldQuit\<close>. The set-watches request of the
  handshake is submitted by its goroutine, a \<open>Queue opSetWatches\<close> step of the schedule.
\<close>

definition pass_body :: "(int32 \<Rightarrow> error) \<Rightarrow> pass \<Rightarrow> Conn \<Rightarrow> error \<times> Conn" where
  "pass_body toError p c =
     (let c1 = connect c;
          (err, sw, c2) = authenticate (hs p) c1;
          c3 = (if err = Some ErrSessionExpired then invalidateWatches ErrSessionExpired c2
                else c2)
      in run_schedule toError err (schedule p) c3)"

definition loop_pass :: "(int32 \<Rightarrow> error) \<Rightarrow> pass \<Rightarrow> Conn \<Rightarrow> Conn" where
  "loop_pass toError p c =
     (let (err, c4) = pass_body toError p c;
          c5 = setState StateDisconnected c4;
          err = (if err \<noteq> ErrSessionExpired then ErrConnectionClosed else err)
      in flushRequests err c5)"

text \<open>
  The goroutine started by \<^verbatim>\<open>Connect\<close>: the passes of the loop until \<^verbatim>\<open>shouldQuit\<close> is
  seen closed, then the final flush and invalidation.
\<close>

definition loop :: "(int32 \<Rightarrow> error) \<Rightarrow> pass list \<Rightarrow> Conn \<Rightarrow> Conn" where
  "loop toError passes c = fold (loop_pass toError) passes c"

definition Connect_goroutine :: "(int32 \<Rightarrow> error) \<Rightarrow> pass list \<Rightarrow> Conn \<Rightarrow> Conn" where
  "Connect_goroutine toError passes c =
     invalidateWatches ErrSessionExpired
       (flushRequests ErrSessionExpired (loop toError passes c))"

subsection \<open>Sinks in use\<close>

text \<open>
  The subscriber sinks of one registry entry and of the whole registry, and the
  requests that wait for an outcome: those in the send queue and those in the pending
  table.
\<close>

definition sinks_of :: "watchers \<Rightarrow> chan list" where
  "sinks_of w = dataWatchers w @ childWatchers w @ existWatchers w"

definition registered_sinks :: "(string \<times> watchers) list \<Rightarrow> chan list" where
  "registered_sinks reg = concat (map (\<lambda>pw. sinks_of (snd pw)) reg)"

definition pending :: "Conn \<Rightarrow> request list" where
  "pending c = sendChan c @ map snd (requests c)"

text \<open>
  The registry as \<^verbatim>\<open>addWatcher\<close> builds it: one entry for a path, every sink registered
  once, allocated, and not sent to yet.
\<close>

definition registry_ok :: "Conn \<Rightarrow> bool" where
  "registry_ok c \<longleftrightarrow>
     distinct (map fst (watchers c))
     \<and> distinct (registered_sinks (watchers c))
     \<and> list_all (\<lambda>ch. ch < nextChan c \<and> sink_events c ch = []) (registered_sinks (watchers c))
     \<and> list_all (\<lambda>x. fst x < nextChan c) (sinkLog c)"

definition NotWatching :: "string \<Rightarrow> error \<Rightarrow> Event" where
  "NotWatching path err =
     \<lparr>Type = EventNotWatching, State = StateDisconnected, Path = path, Err = Some err\<rparr>"

subsection \<open>Completion sinks\<close>

text \<open>
  The state of the completion sinks as \<^verbatim>\<open>queueRequest\<close> and the pipelines keep it: the
  pending table has one entry for an xid, the requests that wait have sinks of their
  own, allocated and not sent to yet, and no sink has been sent to twice.
\<close>

definition completion_ok :: "Conn \<Rightarrow> bool" where
  "completion_ok c \<longleftrightarrow>
     distinct (map fst (requests c))
     \<and> distinct (map recvChan (pending c))
     \<and> list_all (\<lambda>r. recvChan r < nextChan c \<and> deliveries c (recvChan r) = []) (pending c)
     \<and> list_all (\<lambda>x. fst x < nextChan c) (recvLog c)
     \<and> distinct (map fst (recvLog c))"

text \<open>
  A step is free of write failure when it is not a request whose write to the socket
  fails. \<open>codec_results\<close> lists what the codec reports in a step: the outcome of
  encoding the header and the body of a request, and of decoding the body of a frame.
  \<open>outcomes\<close> are the values a sink may then be sent: nil, ErrConnectionClosed,
  ErrSessionExpired, an error translated from a header's error code, or what the codec
  reported.
\<close>

fun no_write_failure :: "step \<Rightarrow> bool" where
  "no_write_failure (SendReq io) = (writeErr io = None)"
| "no_write_failure _ = True"

fun codec_results :: "step \<Rightarrow> error option list" where
  "codec_results (SendReq io) = [headerErr io, bodyErr io]"
| "codec_results (Recv (Inr fr)) = [body fr]"
| "codec_results _ = []"

definition outcomes :: "(int32 \<Rightarrow> error) \<Rightarrow> step list \<Rightarrow> error option set" where
  "outcomes toError steps =
     {None, Some ErrConnectionClosed, Some ErrSessionExpired} \<union> Some ` range toError
     \<union> set (concat (map codec_results steps))"

definition delivered_in :: "error option set \<Rightarrow> Conn \<Rightarrow> bool" where
  "delivered_in A c \<longleftrightarrow> snd ` set (recvLog c) \<subseteq> A"

definition sinks_sound :: "error option set \<Rightarrow> Conn \<Rightarrow> bool" where
  "sinks_sound A c \<longleftrightarrow> completion_ok c \<and> delivered_in A c"

subsection \<open>Protected ephemeral-sequential create\<close>

text \<open>\<^verbatim>\<open>strings.Split(s, "/")\<close>, \<^verbatim>\<open>strings.Join(parts, "/")\<close> and \<^verbatim>\<open>strings.HasPrefix\<close>.\<close>

fun Split :: "string \<Rightarrow> string list" where
  "Split [] = [[]]"
| "Split (ch # s) =
     (if ch = CHR ''/'' then [] # Split s
      else (case Split s of [] \<Rightarrow> [[ch]] | p # ps \<Rightarrow> (ch # p) # ps))"

fun Join :: "string list \<Rightarrow> string" where
  "Join [] = []"
| "Join [p] = p"
| "Join (p # ps) = p @ ''/'' @ Join ps"

definition HasPrefix :: "string \<Rightarrow> string \<Rightarrow> bool" where
  "HasPrefix s pre \<longleftrightarrow> take (length pre) s = pre"

text \<open>
  The slice \<^verbatim>\<open>s[lo:hi]\<close> of a string: a run-time panic when the bounds are out of range,
  which is \<open>None\<close>.
\<close>

definition slice :: "string \<Rightarrow> nat \<Rightarrow> nat \<Rightarrow> string option" where
  "slice s lo hi = (if lo \<le> hi \<and> hi \<le> length s then Some (take (hi - lo) (drop lo s)) else None)"

text \<open>\<^verbatim>\<open>fmt.Sprintf("%x", guid)\<close> on a byte array: two lower-case hex digits for a byte.\<close>

definition hexdigit :: "nat \<Rightarrow> char" where
  "hexdigit n = ''0123456789abcdef'' ! n"

definition Sprintf_x :: "8 word list \<Rightarrow> string" where
  "Sprintf_x bs = concat (map (\<lambda>b. [hexdigit (unat b div 16), hexdigit (unat b mod 16)]) bs)"

datatype flag = FlagEphemeral | FlagSequence

text \<open>
  The requests the function issues, in order, are part of its result: a create with its
  path, data, ACL and flags (\<^verbatim>\<open>FlagEphemeral | FlagSequence\<close> is the set of both), or a
  listing of the children of a path. A call of the function ends by returning a path
  and an error, or by a run-time panic.
\<close>

datatype 'acl call = Create_call string "8 word list" 'acl "flag set" | Children_call string

datatype outcome = Return string "error option" | Panic

text \<open>
  Lines 644 to 651: the scan of the children. \<open>None\<close> when the loop ends without a
  return.
\<close>

fun scan_children :: "string \<Rightarrow> string \<Rightarrow> string list \<Rightarrow> outcome option" where
  "scan_children guidStr rootPath [] = None"
| "scan_children guidStr rootPath (p # ps) =
     (let parts = Split p;
          pth = parts ! (length parts - 1)
      in if HasPrefix pth protectedPrefix then
           (case slice pth (length protectedPrefix) (length protectedPrefix + 32) of
              None \<Rightarrow> Some Panic
            | Some g \<Rightarrow>
                if g = guidStr then Some (Return (rootPath @ ''/'' @ p) None)
                else scan_children guidStr rootPath ps)
         else scan_children guidStr rootPath ps)"

text \<open>
  Lines 634 to 658: the loop, at attempt \<open>i\<close> with \<open>n\<close> attempts left. \<open>create i\<close> is what
  the create request of attempt \<open>i\<close> completes with (the path of the response and the
  error), \<open>children i\<close> what the listing of attempt \<open>i\<close> returns.
\<close>

fun attempts ::
  "(nat \<Rightarrow> string \<times> error option) \<Rightarrow> (nat \<Rightarrow> string list \<times> error option) \<Rightarrow>
   string \<Rightarrow> string \<Rightarrow> string \<Rightarrow> 8 word list \<Rightarrow> 'acl \<Rightarrow> nat \<Rightarrow> nat \<Rightarrow> error option \<Rightarrow>
   outcome \<times> 'acl call list"
where
  "attempts create children guidStr rootPath protectedPath data acl i 0 err =
     (Return [] err, [])"
| "attempts create children guidStr rootPath protectedPath data acl i (Suc n) err0 =
     (let (resPath, err) = create i;
          issued = [Create_call protectedPath data acl {FlagEphemeral, FlagSequence}];
          again = attempts create children guidStr rootPath protectedPath data acl (i + 1) n err
      in if err = Some ErrSessionExpired then (fst again, issued @ snd again)
         else if err = Some ErrConnectionClosed then
           (let (chs, cerr) = children i;
                issued = issued @ [Children_call rootPath]
            in if cerr \<noteq> None then (Return [] cerr, issued)
               else (case scan_children guidStr rootPath chs of
                       Some r \<Rightarrow> (r, issued)
                     | None \<Rightarrow> (fst again, issued @ snd again)))
         else if err = None then (Return resPath None, issued)
         else (Return [] err, issued))"

text \<open>
  The function. \<open>rnd\<close> is what reading 16 bytes from the random source gives.
\<close>

definition CreateProtectedEphemeralSequential ::
  "error + 8 word list \<Rightarrow> (nat \<Rightarrow> string \<times> error option) \<Rightarrow>
   (nat \<Rightarrow> string list \<times> error option) \<Rightarrow> string \<Rightarrow> 8 word list \<Rightarrow> 'acl \<Rightarrow>
   outcome \<times> 'acl call list"
where
  "CreateProtectedEphemeralSequential rnd create children path data acl =
     (case rnd of
        Inl e \<Rightarrow> (Return [] (Some e), [])
      | Inr guid \<Rightarrow>
          (let guidStr = Sprintf_x guid;
               parts = Split path;
               parts = parts[length parts - 1 :=
                         protectedPrefix @ guidStr @ ''-'' @ parts ! (length parts - 1)];
               rootPath = Join (take (length parts - 1) parts);
               protectedPath = Join parts
           in attempts create children guidStr rootPath protectedPath data acl 0 3 None))"

subsection \<open>The recovery the specification describes\<close>

text \<open>
  Written from the specification, to be compared with the function above. A child
  embeds the guid when its basename begins with the marker and the 32 characters after
  the marker are the guid. An attempt decides the call when the create succeeds, when
  it fails with an error other than session-expired and connection-closed, or when
  after connection-closed the listing fails or holds a child that embeds the guid;
  otherwise the next attempt follows. The calls of the attempts \<open>0\<close>, \<open>1\<close> and \<open>2\<close> are
  run until one decides; when none does, the error of the last create is returned.
  \<open>safe_children\<close> says that no basename that begins with the marker is shorter than
  marker and guid together.
\<close>

definition embeds_guid :: "string \<Rightarrow> string \<Rightarrow> bool" where
  "embeds_guid guidStr p \<longleftrightarrow>
     (let basename = last (Split p)
      in HasPrefix basename ''_c_'' \<and> take 32 (drop 3 basename) = guidStr)"

definition spec_decision ::
  "(nat \<Rightarrow> string \<times> error option) \<Rightarrow> (nat \<Rightarrow> string list \<times> error option) \<Rightarrow>
   string \<Rightarrow> string \<Rightarrow> nat \<Rightarrow> outcome option"
where
  "spec_decision create children guidStr parent i =
     (case create i of
        (created, None) \<Rightarrow> Some (Return created None)
      | (created, Some e) \<Rightarrow>
          if e = ErrSessionExpired then None
          else if e = ErrConnectionClosed then
            (case children i of
               (chs, Some ce) \<Rightarrow> Some (Return [] (Some ce))
             | (chs, None) \<Rightarrow>
                 (case find (embeds_guid guidStr) chs of
                    Some p \<Rightarrow> Some (Return (parent @ ''/'' @ p) None)
                  | None \<Rightarrow> None))
          else Some (Return [] (Some e)))"

definition spec_calls ::
  "(nat \<Rightarrow> string \<times> error option) \<Rightarrow> string \<Rightarrow> string \<Rightarrow> 8 word list \<Rightarrow> 'acl \<Rightarrow> nat \<Rightarrow>
   'acl call list"
where
  "spec_calls create parent protected data acl i =
     Create_call protected data acl {FlagEphemeral, FlagSequence}
     # (if snd (create i) = Some ErrConnectionClosed then [Children_call parent] else [])"

fun spec_attempts ::
  "(nat \<Rightarrow> string \<times> error option) \<Rightarrow> (nat \<Rightarrow> string list \<times> error option) \<Rightarrow>
   string \<Rightarrow> string \<Rightarrow> string \<Rightarrow> 8 word list \<Rightarrow> 'acl \<Rightarrow> nat list \<Rightarrow> error option \<Rightarrow>
   outcome \<times> 'acl call list"
where
  "spec_attempts create children guidStr parent protected data acl [] err = (Return [] err, [])"
| "spec_attempts create children guidStr parent protected data acl (i # is) err =
     (case spec_decision create children guidStr parent i of
        Some r \<Rightarrow> (r, spec_calls create parent protected data acl i)
      | None \<Rightarrow>
          (case spec_attempts create children guidStr parent protected data acl is
                  (snd (create i)) of
             (r, calls) \<Rightarrow> (r, spec_calls create parent protected data acl i @ calls)))"

definition spec_protected_create ::
  "8 word list \<Rightarrow> (nat \<Rightarrow> string \<times> error option) \<Rightarrow>
   (nat \<Rightarrow> string list \<times> error option) \<Rightarrow> string \<Rightarrow> 8 word list \<Rightarrow> 'acl \<Rightarrow>
   outcome \<times> 'acl call list"
where
  "spec_protected_create guid create children path data acl =
     (let guidStr = Sprintf_x guid;
          parent = Join (butlast (Split path));
          protected = Join (butlast (Split path) @ [''_c_'' @ guidStr @ ''-'' @ last (Split path)])
      in spec_attempts create children guidStr parent protected data acl [0, 1, 2] None)"

definition safe_children :: "string list \<Rightarrow> bool" where
  "safe_children chs \<longleftrightarrow>
     list_all (\<lambda>p. HasPrefix (last (Split p)) ''_c_'' \<longrightarrow> 35 \<le> length (last (Split p))) chs"

subsection \<open>The dispatch the protocol specifies\<close>

text \<open>
  Written from the specification, to be compared with \<open>recvLoop_event\<close>: the sinks an
  event type fires, in firing order, and what is left of the path's entry once the
  fired sequences are cleared.
\<close>

definition spec_fired :: "EventType \<Rightarrow> watchers \<Rightarrow> chan list" where
  "spec_fired t w =
     (case t of
        EventNodeCreated \<Rightarrow> existWatchers w
      | EventNodeDeleted \<Rightarrow> existWatchers w @ dataWatchers w
      | EventNodeDataChanged \<Rightarrow> existWatchers w @ dataWatchers w
      | EventNodeChildrenChanged \<Rightarrow> childWatchers w
      | _ \<Rightarrow> [])"

definition spec_cleared :: "EventType \<Rightarrow> watchers \<Rightarrow> watchers" where
  "spec_cleared t w =
     (case t of
        EventNodeCreated \<Rightarrow> w\<lparr>existWatchers := []\<rparr>
      | EventNodeDeleted \<Rightarrow> w\<lparr>existWatchers := [], dataWatchers := []\<rparr>
      | EventNodeDataChanged \<Rightarrow> w\<lparr>existWatchers := [], dataWatchers := []\<rparr>
      | EventNodeChildrenChanged \<Rightarrow> w\<lparr>childWatchers := []\<rparr>
      | _ \<Rightarrow> w)"

section \<open>Basic facts about sends\<close>

lemma fire_sinkLog: "sinkLog (fire chs ev c) = sinkLog c @ map (\<lambda>ch. (ch, ev)) chs"
  unfolding fire_def by (induction chs arbitrary: c) (simp_all add: send_event_def)

lemma fire_fields [simp]:
  "watchers (fire chs ev c) = watchers c"
  "requests (fire chs ev c) = requests c"
  "sendChan (fire chs ev c) = sendChan c"
  "recvLog (fire chs ev c) = recvLog c"
  "lastZxid (fire chs ev c) = lastZxid c"
  "nextChan (fire chs ev c) = nextChan c"
  "xid (fire chs ev c) = xid c"
  "sessionId (fire chs ev c) = sessionId c"
  "timeout (fire chs ev c) = timeout c"
  "passwd (fire chs ev c) = passwd c"
  "state (fire chs ev c) = state c"
  unfolding fire_def by (induction chs arbitrary: c; simp add: send_event_def)+

lemma publish_fields [simp]:
  "watchers (publish ev c) = watchers c"
  "requests (publish ev c) = requests c"
  "sendChan (publish ev c) = sendChan c"
  "recvLog (publish ev c) = recvLog c"
  "sinkLog (publish ev c) = sinkLog c"
  "lastZxid (publish ev c) = lastZxid c"
  "nextChan (publish ev c) = nextChan c"
  "xid (publish ev c) = xid c"
  "sessionId (publish ev c) = sessionId c"
  "timeout (publish ev c) = timeout c"
  "passwd (publish ev c) = passwd c"
  "state (publish ev c) = state c"
  by (simp_all add: publish_def)

lemma recvLoop_event_lastZxid: "lastZxid (recvLoop_event wev c) = lastZxid c"
  by (simp add: recvLoop_event_def Let_def split: option.splits prod.splits)

lemma recvLoop_event_registered:
  assumes "map_of (watchers c) (wPath wev) = Some wat"
  shows "sinkLog (recvLoop_event wev c) =
           sinkLog c @ map (\<lambda>ch. (ch, \<lparr>Type = wType wev, State = wState wev,
                                          Path = wPath wev, Err = None\<rparr>))
                         (spec_fired (wType wev) wat)"
    and "map_of (watchers (recvLoop_event wev c)) =
           (map_of (watchers c))(wPath wev :=
              (if dataWatchers (spec_cleared (wType wev) wat) = []
                  \<and> existWatchers (spec_cleared (wType wev) wat) = []
                  \<and> childWatchers (spec_cleared (wType wev) wat) = []
               then None else Some (spec_cleared (wType wev) wat)))"
  using assms
  by (cases "wType wev";
      simp add: recvLoop_event_def Let_def fire_sinkLog spec_fired_def spec_cleared_def
        AList.delete_conv' AList.update_conv')+

lemma setState_fields [simp]:
  "watchers (setState st c) = watchers c"
  "requests (setState st c) = requests c"
  "sendChan (setState st c) = sendChan c"
  "recvLog (setState st c) = recvLog c"
  "sinkLog (setState st c) = sinkLog c"
  "lastZxid (setState st c) = lastZxid c"
  "nextChan (setState st c) = nextChan c"
  "xid (setState st c) = xid c"
  "sessionId (setState st c) = sessionId c"
  "timeout (setState st c) = timeout c"
  "passwd (setState st c) = passwd c"
  "state (setState st c) = st"
  by (simp_all add: setState_def)

section \<open>Basic facts about the handshake and the counter\<close>

lemma authenticate_xid:
  "xid (snd (snd (authenticate io c))) =
     (case io of
        Reply r \<Rightarrow> if SessionId r \<noteq> 0 \<and> SessionId r \<noteq> sessionId c then 0 else xid c
      | _ \<Rightarrow> xid c)"
  by (auto simp: authenticate_def Let_def split: handshake.splits)

lemma authenticate_sessionId:
  "sessionId (snd (snd (authenticate io c))) =
     (case io of Reply r \<Rightarrow> SessionId r | _ \<Rightarrow> sessionId c)"
  by (auto simp: authenticate_def Let_def split: handshake.splits)

lemma queueRequest_xid: "xid (snd (queueRequest oc c)) = xid c + 1"
  and queueRequest_sessionId: "sessionId (snd (queueRequest oc c)) = sessionId c"
  and new_request_rxid: "rxid (fst (new_request oc c)) = xid c + 1"
  by (simp_all add: queueRequest_def new_request_def nextXid_def make_chan_def Let_def
      split: prod.splits)

lemma assigned_xids_same_session:
  "list_all (same_session (sessionId c)) ops \<Longrightarrow>
   assigned_xids ops c = map (\<lambda>k. xid c + 1 + of_nat k) [0..<submits ops]"
proof (induction ops arbitrary: c)
  case Nil
  show ?case by simp
next
  case (Cons a ops)
  show ?case
  proof (cases a)
    case (Submit oc)
    have "assigned_xids ops (snd (queueRequest oc c)) =
          map (\<lambda>k. xid c + 1 + 1 + of_nat k) [0..<submits ops]"
      using Cons.IH [of "snd (queueRequest oc c)"] Cons.prems
      by (simp add: queueRequest_xid queueRequest_sessionId)
    then show ?thesis
      using Submit by (simp add: new_request_rxid map_upt_Suc ac_simps del: upt_Suc)
  next
    case (Handshake io)
    have "xid (snd (snd (authenticate io c))) = xid c"
      and "sessionId (snd (snd (authenticate io c))) = sessionId c"
      using Cons.prems Handshake
      by (auto simp: authenticate_xid authenticate_sessionId split: handshake.splits)
    then show ?thesis
      using Cons.IH [of "snd (snd (authenticate io c))"] Cons.prems Handshake by simp
  qed
qed

lemma sint_xid_plus:
  assumes "sint (x :: int32) + 1 + int k < 2 ^ 31"
  shows "sint (x + 1 + of_nat k) = sint x + 1 + int k"
proof -
  have lo: "- (2 ^ 31) \<le> sint x"
    using sint_ge [of x] by simp
  have "x + 1 + of_nat k = word_of_int (sint x + 1 + int k)"
    by simp
  then have "sint (x + 1 + of_nat k) = signed_take_bit 31 (sint x + 1 + int k)"
    by (simp only: sint_sbintrunc') simp
  also have "\<dots> = sint x + 1 + int k"
    using assms lo by (intro signed_take_bit_int_eq_self) auto
  finally show ?thesis .
qed

section \<open>Basic facts about the set-watches snapshot\<close>

lemma fold_sendSetWatches_path:
  "fold sendSetWatches_path reg (req, n) =
     (req\<lparr>DataWatches := DataWatches req @ watched_paths dataWatchers reg,
          ExistWatches := ExistWatches req @ watched_paths existWatchers reg,
          ChildWatches := ChildWatches req @ watched_paths childWatchers reg\<rparr>,
      n + included_bytes reg)"
proof (induction reg arbitrary: req n)
  case Nil
  show ?case by (simp add: watched_paths_def included_bytes_def)
next
  case (Cons pw reg)
  obtain p w where pw: "pw = (p, w)" by (cases pw)
  show ?case
    unfolding fold_simps pw
    by (simp add: sendSetWatches_path_def Cons.IH watched_paths_def included_bytes_def)
qed

lemma sendSetWatches_eq:
  "sendSetWatches c =
     (if watchers c = [] \<or> included_bytes (watchers c) = 0 then None
      else Some \<lparr>RealtiveZxid = lastZxid c,
                 DataWatches = watched_paths dataWatchers (watchers c),
                 ExistWatches = watched_paths existWatchers (watchers c),
                 ChildWatches = watched_paths childWatchers (watchers c)\<rparr>)"
  by (simp add: sendSetWatches_def fold_sendSetWatches_path)

lemma authenticate_ok_setWatches:
  "authenticate io c = (None, sw, c') \<Longrightarrow> sw = sendSetWatches c"
  by (auto simp: authenticate_def Let_def split: handshake.splits if_splits)

section \<open>What each operation leaves alone\<close>

lemma send_error_fields [simp]:
  "watchers (send_error ch e c) = watchers c"
  "requests (send_error ch e c) = requests c"
  "sendChan (send_error ch e c) = sendChan c"
  "recvLog (send_error ch e c) = recvLog c @ [(ch, e)]"
  "sinkLog (send_error ch e c) = sinkLog c"
  "nextChan (send_error ch e c) = nextChan c"
  by (simp_all add: send_error_def)

lemma queueRequest_fields [simp]:
  "watchers (snd (queueRequest oc c)) = watchers c"
  "requests (snd (queueRequest oc c)) = requests c"
  "sendChan (snd (queueRequest oc c)) =
     sendChan c @ [\<lparr>rxid = xid c + 1, ropcode = oc, recvChan = nextChan c\<rparr>]"
  "recvLog (snd (queueRequest oc c)) = recvLog c"
  "sinkLog (snd (queueRequest oc c)) = sinkLog c"
  "nextChan (snd (queueRequest oc c)) = Suc (nextChan c)"
  by (simp_all add: queueRequest_def new_request_def nextXid_def make_chan_def)

lemma addWatcher_fields [simp]:
  "requests (snd (addWatcher p k c)) = requests c"
  "sendChan (snd (addWatcher p k c)) = sendChan c"
  "recvLog (snd (addWatcher p k c)) = recvLog c"
  "sinkLog (snd (addWatcher p k c)) = sinkLog c"
  "nextChan (snd (addWatcher p k c)) = Suc (nextChan c)"
  by (simp_all add: addWatcher_def make_chan_def Let_def)

lemma authenticate_fields [simp]:
  "watchers (snd (snd (authenticate io c))) = watchers c"
  "requests (snd (snd (authenticate io c))) = requests c"
  "sendChan (snd (snd (authenticate io c))) = sendChan c"
  "recvLog (snd (snd (authenticate io c))) = recvLog c"
  "sinkLog (snd (snd (authenticate io c))) = sinkLog c"
  "nextChan (snd (snd (authenticate io c))) = nextChan c"
  by (simp_all add: authenticate_def Let_def split: handshake.splits)

lemma connect_fields [simp]:
  "watchers (connect c) = watchers c"
  "requests (connect c) = requests c"
  "sendChan (connect c) = sendChan c"
  "recvLog (connect c) = recvLog c"
  "sinkLog (connect c) = sinkLog c"
  "nextChan (connect c) = nextChan c"
  by (simp_all add: connect_def)

lemma fold_invalidate_fields [simp]:
  "requests (fold (invalidateWatches_path err) reg c) = requests c"
  "sendChan (fold (invalidateWatches_path err) reg c) = sendChan c"
  "recvLog (fold (invalidateWatches_path err) reg c) = recvLog c"
  "nextChan (fold (invalidateWatches_path err) reg c) = nextChan c"
  by (induction reg arbitrary: c; simp add: invalidateWatches_path_def Let_def split: prod.splits)+

lemma invalidateWatches_fields [simp]:
  "watchers (invalidateWatches err c) = []"
  "requests (invalidateWatches err c) = requests c"
  "sendChan (invalidateWatches err c) = sendChan c"
  "recvLog (invalidateWatches err c) = recvLog c"
  "nextChan (invalidateWatches err c) = nextChan c"
  by (simp_all add: invalidateWatches_def)

lemma recvLoop_event_fields [simp]:
  "requests (recvLoop_event wev c) = requests c"
  "sendChan (recvLoop_event wev c) = sendChan c"
  "recvLog (recvLoop_event wev c) = recvLog c"
  "nextChan (recvLoop_event wev c) = nextChan c"
  by (simp_all add: recvLoop_event_def Let_def split: option.splits prod.splits)

lemma recvLoop_response_fields [simp]:
  "watchers (snd (recvLoop_response t h b c)) = watchers c"
  "sendChan (snd (recvLoop_response t h b c)) = sendChan c"
  "sinkLog (snd (recvLoop_response t h b c)) = sinkLog c"
  "nextChan (snd (recvLoop_response t h b c)) = nextChan c"
  by (simp_all add: recvLoop_response_def Let_def split: option.splits)

lemma fold_flush_fields [simp]:
  "watchers (fold (\<lambda>xr. send_error (recvChan (snd xr)) e) rs c) = watchers c"
  "sendChan (fold (\<lambda>xr. send_error (recvChan (snd xr)) e) rs c) = sendChan c"
  "sinkLog (fold (\<lambda>xr. send_error (recvChan (snd xr)) e) rs c) = sinkLog c"
  "nextChan (fold (\<lambda>xr. send_error (recvChan (snd xr)) e) rs c) = nextChan c"
  "recvLog (fold (\<lambda>xr. send_error (recvChan (snd xr)) e) rs c) =
     recvLog c @ map (\<lambda>xr. (recvChan (snd xr), e)) rs"
  by (induction rs arbitrary: c; simp)+

lemma flushRequests_fields [simp]:
  "watchers (flushRequests err c) = watchers c"
  "requests (flushRequests err c) = []"
  "sendChan (flushRequests err c) = sendChan c"
  "sinkLog (flushRequests err c) = sinkLog c"
  "nextChan (flushRequests err c) = nextChan c"
  "recvLog (flushRequests err c) =
     recvLog c @ map (\<lambda>xr. (recvChan (snd xr), Some err)) (requests c)"
  by (simp_all add: flushRequests_def)

lemma sendLoop_request_fields [simp]:
  "watchers (snd (sendLoop_request io cl req c)) = watchers c"
  "sendChan (snd (sendLoop_request io cl req c)) = sendChan c"
  "sinkLog (snd (sendLoop_request io cl req c)) = sinkLog c"
  "nextChan (snd (sendLoop_request io cl req c)) = nextChan c"
  by (simp_all add: sendLoop_request_def Let_def split: option.splits)

section \<open>Invariants of the session loop\<close>

text \<open>
  A property that holds at the start and that every operation of the loop keeps holds
  after any number of passes. \<open>ok\<close> restricts the steps of the schedules.
\<close>

lemma pipeline_step_conn:
  "fst (pipeline_step t st (c, s, r)) =
     (case st of
        Queue oc \<Rightarrow> snd (queueRequest oc c)
      | Watch p k \<Rightarrow> snd (addWatcher p k c)
      | SendReq io \<Rightarrow>
          (if s then
             (case sendChan c of
                [] \<Rightarrow> c
              | req # q \<Rightarrow> snd (sendLoop_request io (r \<noteq> None) req (c\<lparr>sendChan := q\<rparr>)))
           else c)
      | Ping w \<Rightarrow> c
      | Recv rd \<Rightarrow> (if r = None then snd (recvLoop_step t rd c) else c))"
  by (cases st) (auto split: prod.splits option.splits list.splits)

lemma pipeline_step_invariant:
  assumes "P c" and "ok st"
    and queue: "\<And>c oc. P c \<Longrightarrow> P (snd (queueRequest oc c))"
    and watch: "\<And>c p k. P c \<Longrightarrow> P (snd (addWatcher p k c))"
    and send: "\<And>c io closing req q. P c \<Longrightarrow> ok (SendReq io) \<Longrightarrow> sendChan c = req # q \<Longrightarrow>
                 P (snd (sendLoop_request io closing req (c\<lparr>sendChan := q\<rparr>)))"
    and recv: "\<And>c rd. P c \<Longrightarrow> ok (Recv rd) \<Longrightarrow> P (snd (recvLoop_step t rd c))"
  shows "P (fst (pipeline_step t st (c, s, r)))"
proof (cases st)
  case (Queue oc)
  show ?thesis
    unfolding pipeline_step_conn Queue step.case by (rule queue [OF assms(1)])
next
  case (Watch p k)
  show ?thesis
    unfolding pipeline_step_conn Watch step.case by (rule watch [OF assms(1)])
next
  case (SendReq io)
  show ?thesis
  proof (cases "sendChan c")
    case Nil
    show ?thesis
      unfolding pipeline_step_conn SendReq step.case Nil using assms(1) by simp
  next
    case (Cons req q)
    have "P (snd (sendLoop_request io (r \<noteq> None) req (c\<lparr>sendChan := q\<rparr>)))"
      using assms(2) unfolding SendReq by (rule send [OF assms(1) _ Cons])
    then show ?thesis
      unfolding pipeline_step_conn SendReq step.case Cons using assms(1) by simp
  qed
next
  case (Ping w)
  show ?thesis
    unfolding pipeline_step_conn Ping step.case by (rule assms(1))
next
  case (Recv rd)
  have "P (snd (recvLoop_step t rd c))"
    using assms(2) unfolding Recv by (rule recv [OF assms(1)])
  then show ?thesis
    unfolding pipeline_step_conn Recv step.case using assms(1) by simp
qed

lemma schedule_invariant:
  assumes "P c" and "list_all ok steps"
    and queue: "\<And>c oc. P c \<Longrightarrow> P (snd (queueRequest oc c))"
    and watch: "\<And>c p k. P c \<Longrightarrow> P (snd (addWatcher p k c))"
    and send: "\<And>c io closing req q. P c \<Longrightarrow> ok (SendReq io) \<Longrightarrow> sendChan c = req # q \<Longrightarrow>
                 P (snd (sendLoop_request io closing req (c\<lparr>sendChan := q\<rparr>)))"
    and recv: "\<And>c rd. P c \<Longrightarrow> ok (Recv rd) \<Longrightarrow> P (snd (recvLoop_step t rd c))"
  shows "P (fst (fold (pipeline_step t) steps (c, s, r)))"
  using assms(1,2)
proof (induction steps arbitrary: c s r)
  case Nil
  then show ?case by simp
next
  case (Cons st steps)
  obtain c' s' r' where st: "pipeline_step t st (c, s, r) = (c', s', r')"
    by (cases "pipeline_step t st (c, s, r)")
  have okst: "ok st" and oksteps: "list_all ok steps"
    using Cons.prems(2) by simp_all
  have "P (fst (pipeline_step t st (c, s, r)))"
    by (rule pipeline_step_invariant [where ok = ok, OF Cons.prems(1) okst queue watch send recv])
  then have "P c'"
    unfolding st fst_conv .
  then have "P (fst (fold (pipeline_step t) steps (c', s', r')))"
    using oksteps by (rule Cons.IH)
  then show ?case
    unfolding fold_simps st .
qed

lemma pass_body_invariant:
  assumes "P c" and "list_all ok (schedule p)"
    and setSt: "\<And>c st. P c \<Longrightarrow> P (setState st c)"
    and auth: "\<And>c io. P c \<Longrightarrow> P (snd (snd (authenticate io c)))"
    and inval: "\<And>c. P c \<Longrightarrow> P (invalidateWatches ErrSessionExpired c)"
    and queue: "\<And>c oc. P c \<Longrightarrow> P (snd (queueRequest oc c))"
    and watch: "\<And>c p k. P c \<Longrightarrow> P (snd (addWatcher p k c))"
    and send: "\<And>c io closing req q. P c \<Longrightarrow> ok (SendReq io) \<Longrightarrow> sendChan c = req # q \<Longrightarrow>
                 P (snd (sendLoop_request io closing req (c\<lparr>sendChan := q\<rparr>)))"
    and recv: "\<And>c rd. P c \<Longrightarrow> ok (Recv rd) \<Longrightarrow> P (snd (recvLoop_step t rd c))"
  shows "P (snd (pass_body t p c))"
proof -
  have "P (setState StateConnecting c)"
    using assms(1) by (rule setSt)
  then have c1: "P (connect c)"
    unfolding connect_def by (rule setSt)
  obtain err sw c2 where a: "authenticate (hs p) (connect c) = (err, sw, c2)"
    by (cases "authenticate (hs p) (connect c)")
  have "P (snd (snd (authenticate (hs p) (connect c))))"
    using c1 by (rule auth)
  then have c2: "P c2"
    unfolding a snd_conv .
  define c3 where
    "c3 = (if err = Some ErrSessionExpired then invalidateWatches ErrSessionExpired c2 else c2)"
  have c3: "P c3"
  proof (cases "err = Some ErrSessionExpired")
    case True
    have "P (invalidateWatches ErrSessionExpired c2)"
      using c2 by (rule inval)
    then show ?thesis unfolding c3_def using True by simp
  next
    case False
    then show ?thesis unfolding c3_def using c2 by simp
  qed
  have f: "P (fst (fold (pipeline_step t) (schedule p) (c3, err = None, err)))"
    by (rule schedule_invariant [where ok = ok, OF c3 assms(2) queue watch send recv])
  have "snd (pass_body t p c) = fst (fold (pipeline_step t) (schedule p) (c3, err = None, err))"
    by (simp add: pass_body_def a c3_def run_schedule_def Let_def split: prod.splits)
  then show ?thesis
    using f by simp
qed

lemma loop_pass_invariant:
  assumes "P c" and "list_all ok (schedule p)"
    and setSt: "\<And>c st. P c \<Longrightarrow> P (setState st c)"
    and auth: "\<And>c io. P c \<Longrightarrow> P (snd (snd (authenticate io c)))"
    and inval: "\<And>c. P c \<Longrightarrow> P (invalidateWatches ErrSessionExpired c)"
    and queue: "\<And>c oc. P c \<Longrightarrow> P (snd (queueRequest oc c))"
    and watch: "\<And>c p k. P c \<Longrightarrow> P (snd (addWatcher p k c))"
    and send: "\<And>c io closing req q. P c \<Longrightarrow> ok (SendReq io) \<Longrightarrow> sendChan c = req # q \<Longrightarrow>
                 P (snd (sendLoop_request io closing req (c\<lparr>sendChan := q\<rparr>)))"
    and recv: "\<And>c rd. P c \<Longrightarrow> ok (Recv rd) \<Longrightarrow> P (snd (recvLoop_step t rd c))"
    and flush: "\<And>c e. P c \<Longrightarrow> e = ErrConnectionClosed \<or> e = ErrSessionExpired \<Longrightarrow>
                  P (flushRequests e c)"
  shows "P (loop_pass t p c)"
proof -
  have "P (snd (pass_body t p c))"
    by (rule pass_body_invariant [where ok = ok,
          OF assms(1,2) setSt auth inval queue watch send recv])
  then have d: "P (setState StateDisconnected (snd (pass_body t p c)))"
    by (rule setSt)
  define e where "e = (if fst (pass_body t p c) \<noteq> ErrSessionExpired then ErrConnectionClosed
                       else fst (pass_body t p c))"
  have "e = ErrConnectionClosed \<or> e = ErrSessionExpired"
    unfolding e_def by simp
  with d have "P (flushRequests e (setState StateDisconnected (snd (pass_body t p c))))"
    by (rule flush)
  moreover have "loop_pass t p c =
      flushRequests e (setState StateDisconnected (snd (pass_body t p c)))"
    by (simp add: loop_pass_def e_def Let_def split: prod.splits)
  ultimately show ?thesis by simp
qed

lemma loop_invariant:
  assumes "P c" and "list_all (\<lambda>p. list_all ok (schedule p)) passes"
    and setSt: "\<And>c st. P c \<Longrightarrow> P (setState st c)"
    and auth: "\<And>c io. P c \<Longrightarrow> P (snd (snd (authenticate io c)))"
    and inval: "\<And>c. P c \<Longrightarrow> P (invalidateWatches ErrSessionExpired c)"
    and queue: "\<And>c oc. P c \<Longrightarrow> P (snd (queueRequest oc c))"
    and watch: "\<And>c p k. P c \<Longrightarrow> P (snd (addWatcher p k c))"
    and send: "\<And>c io closing req q. P c \<Longrightarrow> ok (SendReq io) \<Longrightarrow> sendChan c = req # q \<Longrightarrow>
                 P (snd (sendLoop_request io closing req (c\<lparr>sendChan := q\<rparr>)))"
    and recv: "\<And>c rd. P c \<Longrightarrow> ok (Recv rd) \<Longrightarrow> P (snd (recvLoop_step t rd c))"
    and flush: "\<And>c e. P c \<Longrightarrow> e = ErrConnectionClosed \<or> e = ErrSessionExpired \<Longrightarrow>
                  P (flushRequests e c)"
  shows "P (loop t passes c)"
  using assms(1,2) unfolding loop_def
proof (induction passes arbitrary: c)
  case Nil
  then show ?case by simp
next
  case (Cons p passes)
  have okp: "list_all ok (schedule p)"
    and okps: "list_all (\<lambda>p. list_all ok (schedule p)) passes"
    using Cons.prems(2) by simp_all
  have "P (loop_pass t p c)"
    by (rule loop_pass_invariant [where ok = ok,
          OF Cons.prems(1) okp setSt auth inval queue watch send recv flush])
  then have "P (fold (loop_pass t) passes (loop_pass t p c))"
    using okps by (rule Cons.IH)
  then show ?case
    unfolding fold_simps .
qed

section \<open>The registry invariant\<close>

lemma update_absent: "map_of al k = None \<Longrightarrow> AList.update k v al = al @ [(k, v)]"
  by (induction al) (auto split: if_splits)

lemma alist_split:
  "map_of al k = Some v \<Longrightarrow> distinct (map fst al) \<Longrightarrow>
   \<exists>pre post. al = pre @ (k, v) # post
     \<and> AList.update k v' al = pre @ (k, v') # post
     \<and> AList.delete k al = pre @ post"
proof (induction al)
  case Nil
  then show ?case by simp
next
  case (Cons a al)
  show ?case
  proof (cases "fst a = k")
    case True
    then have a: "a = (k, v)" using Cons.prems(1) by (cases a) auto
    have "k \<notin> fst ` set al" using Cons.prems(2) a by auto
    then have "AList.delete k al = al" by simp
    then show ?thesis
      using a by (intro exI [of _ "[]"] exI [of _ al]) simp
  next
    case False
    then have "map_of al k = Some v" using Cons.prems(1) by (cases a) auto
    then obtain pre post where "al = pre @ (k, v) # post"
      "AList.update k v' al = pre @ (k, v') # post" "AList.delete k al = pre @ post"
      using Cons.IH Cons.prems(2) by auto
    then show ?thesis
      using False by (intro exI [of _ "a # pre"] exI [of _ post]) (cases a, auto)
  qed
qed

lemma registered_sinks_append [simp]:
  "registered_sinks (xs @ ys) = registered_sinks xs @ registered_sinks ys"
  "registered_sinks (x # xs) = sinks_of (snd x) @ registered_sinks xs"
  "registered_sinks [] = []"
  by (simp_all add: registered_sinks_def)

lemma sink_events_none: "list_all (\<lambda>x. fst x < n) (sinkLog c) \<Longrightarrow> n \<le> ch \<Longrightarrow> sink_events c ch = []"
  by (auto simp: sink_events_def filter_empty_conv list_all_iff)

lemma registry_ok_frame:
  assumes "registry_ok c" and "watchers c' = watchers c" and "sinkLog c' = sinkLog c"
    and "nextChan c \<le> nextChan c'"
  shows "registry_ok c'"
  using assms by (auto simp: registry_ok_def sink_events_def list_all_iff)

lemma registry_ok_Connect: "registry_ok Connect"
  by (simp add: registry_ok_def Connect_def)

lemma registry_ok_addWatcher:
  assumes "registry_ok c"
  shows "registry_ok (snd (addWatcher p k c))"
proof -
  let ?ch = "nextChan c"
  have fresh: "?ch \<notin> set (registered_sinks (watchers c))"
    using assms by (auto simp: registry_ok_def list_all_iff)
  have none: "sink_events c ?ch = []"
    using assms by (intro sink_events_none [of "nextChan c"]) (simp_all add: registry_ok_def)
  show ?thesis
  proof (cases "map_of (watchers c) p")
    case None
    then have w: "watchers (snd (addWatcher p k c)) =
        watchers c @ [(p, (case k of
            watcherTypeChild \<Rightarrow> new_watchers\<lparr>childWatchers := [?ch]\<rparr>
          | watcherTypeData \<Rightarrow> new_watchers\<lparr>dataWatchers := [?ch]\<rparr>
          | watcherTypeExist \<Rightarrow> new_watchers\<lparr>existWatchers := [?ch]\<rparr>))]"
      by (cases k) (simp_all add: addWatcher_def make_chan_def Let_def update_absent new_watchers_def)
    have s: "registered_sinks (watchers (snd (addWatcher p k c))) =
        registered_sinks (watchers c) @ [?ch]"
      unfolding w by (cases k) (simp_all add: sinks_of_def new_watchers_def)
    have keys: "p \<notin> fst ` set (watchers c)"
      using None by (simp add: map_of_eq_None_iff)
    show ?thesis
      unfolding registry_ok_def s
      using assms fresh none keys
      by (auto simp: w registry_ok_def list_all_iff sink_events_def less_Suc_eq)
  next
    case (Some wat)
    have d: "distinct (map fst (watchers c))"
      using assms by (simp add: registry_ok_def)
    define wat' where "wat' = (case k of
            watcherTypeChild \<Rightarrow> wat\<lparr>childWatchers := childWatchers wat @ [?ch]\<rparr>
          | watcherTypeData \<Rightarrow> wat\<lparr>dataWatchers := dataWatchers wat @ [?ch]\<rparr>
          | watcherTypeExist \<Rightarrow> wat\<lparr>existWatchers := existWatchers wat @ [?ch]\<rparr>)"
    obtain pre post where sp: "watchers c = pre @ (p, wat) # post"
      "AList.update p wat' (watchers c) = pre @ (p, wat') # post"
      using alist_split [OF Some d, of wat'] by blast
    have w: "watchers (snd (addWatcher p k c)) = pre @ (p, wat') # post"
      using Some sp(2) by (cases k) (simp_all add: addWatcher_def make_chan_def Let_def wat'_def)
    have s: "set (sinks_of wat') = insert ?ch (set (sinks_of wat))"
      and ds: "distinct (sinks_of wat') \<longleftrightarrow> distinct (sinks_of wat) \<and> ?ch \<notin> set (sinks_of wat)"
      unfolding wat'_def by (cases k; auto simp: sinks_of_def)+
    show ?thesis
      unfolding registry_ok_def w
      using assms fresh none
      by (auto simp: sp(1) s ds registry_ok_def list_all_iff sink_events_def less_Suc_eq)
  qed
qed

lemma spec_fired_cleared:
  "set (spec_fired t w) \<subseteq> set (sinks_of w)"
  "set (sinks_of (spec_cleared t w)) \<subseteq> set (sinks_of w)"
  "distinct (sinks_of w) \<Longrightarrow> distinct (sinks_of (spec_cleared t w))"
  "distinct (sinks_of w) \<Longrightarrow> set (sinks_of (spec_cleared t w)) \<inter> set (spec_fired t w) = {}"
  by (cases t; auto simp: spec_fired_def spec_cleared_def sinks_of_def)+

lemma recvLoop_event_watchers:
  assumes "map_of (watchers c) (wPath wev) = Some wat"
  shows "watchers (recvLoop_event wev c) =
     (if sinks_of (spec_cleared (wType wev) wat) = []
      then AList.delete (wPath wev) (watchers c)
      else AList.update (wPath wev) (spec_cleared (wType wev) wat) (watchers c))"
  using assms
  by (cases "wType wev")
     (auto simp: recvLoop_event_def Let_def spec_cleared_def sinks_of_def)

lemma registry_ok_recvLoop_event:
  assumes "registry_ok c"
  shows "registry_ok (recvLoop_event wev c)"
proof (cases "map_of (watchers c) (wPath wev)")
  case None
  then have "recvLoop_event wev c = publish \<lparr>Type = wType wev, State = wState wev,
      Path = wPath wev, Err = None\<rparr> c"
    by (simp add: recvLoop_event_def Let_def)
  then show ?thesis
    using assms by (auto intro: registry_ok_frame)
next
  case (Some wat)
  let ?ev = "\<lparr>Type = wType wev, State = wState wev, Path = wPath wev, Err = None\<rparr>"
  let ?left = "spec_cleared (wType wev) wat"
  let ?fired = "spec_fired (wType wev) wat"
  have d: "distinct (map fst (watchers c))"
    using assms by (simp add: registry_ok_def)
  obtain pre post where sp: "watchers c = pre @ (wPath wev, wat) # post"
    "AList.update (wPath wev) ?left (watchers c) = pre @ (wPath wev, ?left) # post"
    "AList.delete (wPath wev) (watchers c) = pre @ post"
    using alist_split [OF Some d, of ?left] by blast
  have log: "sinkLog (recvLoop_event wev c) = sinkLog c @ map (\<lambda>ch. (ch, ?ev)) ?fired"
    by (rule recvLoop_event_registered(1) [OF Some])
  have dw: "distinct (sinks_of wat)"
    using assms by (simp add: registry_ok_def sp(1))
  note fc = spec_fired_cleared(1,2) [of "wType wev" wat]
    spec_fired_cleared(3,4) [OF dw, of "wType wev"]
  have nc: "nextChan (recvLoop_event wev c) = nextChan c"
    by simp
  show ?thesis
  proof (cases "sinks_of ?left = []")
    case True
    have w: "watchers (recvLoop_event wev c) = pre @ post"
      using recvLoop_event_watchers [OF Some] True sp(3) by simp
    show ?thesis
      using assms fc
      by (auto simp: registry_ok_def w log sp(1) list_all_iff sink_events_def filter_empty_conv)
  next
    case False
    have w: "watchers (recvLoop_event wev c) = pre @ (wPath wev, ?left) # post"
      using recvLoop_event_watchers [OF Some] False sp(2) by simp
    show ?thesis
      using assms fc
      by (auto simp: registry_ok_def w log sp(1) list_all_iff sink_events_def filter_empty_conv)
  qed
qed

lemma recvLoop_step_conn:
  "snd (recvLoop_step t rd c) = c
   \<or> (\<exists>wev. snd (recvLoop_step t rd c) = recvLoop_event wev c)
   \<or> (\<exists>h b. snd (recvLoop_step t rd c) = snd (recvLoop_response t h b c))"
  by (auto simp: recvLoop_step_def split: sum.splits)

lemma registry_ok_recvLoop_step:
  assumes "registry_ok c"
  shows "registry_ok (snd (recvLoop_step t rd c))"
  using recvLoop_step_conn [of t rd c] assms
  by (auto intro: registry_ok_frame registry_ok_recvLoop_event)

lemma invalidateWatches_path_sinkLog:
  "sinkLog (invalidateWatches_path err (p, w) c) =
     sinkLog c @ map (\<lambda>ch. (ch, NotWatching p err)) (sinks_of w)"
  by (simp add: invalidateWatches_path_def fire_sinkLog sinks_of_def NotWatching_def Let_def)

lemma fold_invalidate_sinkLog:
  "sinkLog (fold (invalidateWatches_path err) reg c) =
     sinkLog c @ concat (map (\<lambda>pw. map (\<lambda>ch. (ch, NotWatching (fst pw) err)) (sinks_of (snd pw))) reg)"
proof (induction reg arbitrary: c)
  case Nil
  show ?case by simp
next
  case (Cons pw reg)
  obtain p w where pw: "pw = (p, w)" by (cases pw)
  show ?case
    by (simp add: pw Cons.IH invalidateWatches_path_sinkLog)
qed

lemma invalidateWatches_sinkLog:
  "sinkLog (invalidateWatches err c) = sinkLog c @
     concat (map (\<lambda>pw. map (\<lambda>ch. (ch, NotWatching (fst pw) err)) (sinks_of (snd pw))) (watchers c))"
  by (simp add: invalidateWatches_def fold_invalidate_sinkLog)

lemma registry_ok_invalidateWatches:
  assumes "registry_ok c"
  shows "registry_ok (invalidateWatches err c)"
  using assms
  by (auto simp: registry_ok_def invalidateWatches_sinkLog list_all_iff registered_sinks_def)

lemma registry_ok_loop:
  assumes "registry_ok c"
  shows "registry_ok (loop t passes c)"
proof (rule loop_invariant [where P = registry_ok and ok = "\<lambda>_. True"])
  show "registry_ok c" by (rule assms)
  show "list_all (\<lambda>p. list_all (\<lambda>_. True) (schedule p)) passes"
    by (simp add: list_all_iff)
  show "registry_ok (setState st c)" if "registry_ok c" for c st
    using that by (rule registry_ok_frame) simp_all
  show "registry_ok (snd (snd (authenticate io c)))" if "registry_ok c" for c io
    using that by (rule registry_ok_frame) simp_all
  show "registry_ok (invalidateWatches ErrSessionExpired c)" if "registry_ok c" for c
    using that by (rule registry_ok_invalidateWatches)
  show "registry_ok (snd (queueRequest oc c))" if "registry_ok c" for c oc
    using that by (rule registry_ok_frame) simp_all
  show "registry_ok (snd (addWatcher p k c))" if "registry_ok c" for c p k
    using that by (rule registry_ok_addWatcher)
  show "registry_ok (snd (sendLoop_request io closing req (c\<lparr>sendChan := q\<rparr>)))"
    if "registry_ok c" for c io closing req q
    using that by (rule registry_ok_frame) simp_all
  show "registry_ok (snd (recvLoop_step t rd c))" if "registry_ok c" for c rd
    using that by (rule registry_ok_recvLoop_step)
  show "registry_ok (flushRequests e c)" if "registry_ok c" for c e
    using that by (rule registry_ok_frame) simp_all
qed

lemma filter_sends_in:
  "distinct chs \<Longrightarrow> ch \<in> set chs \<Longrightarrow>
   filter (\<lambda>x. fst x = ch) (map (\<lambda>ch'. (ch', ev)) chs) = [(ch, ev)]"
  by (induction chs) (auto simp: filter_empty_conv)

lemma filter_sends_out:
  "ch \<notin> set chs \<Longrightarrow> filter (\<lambda>x. fst x = ch) (map (\<lambda>ch'. (ch', ev)) chs) = []"
  by (auto simp: filter_empty_conv)

lemma filter_invalidated:
  assumes "distinct (registered_sinks reg)" and "(p, w) \<in> set reg" and "ch \<in> set (sinks_of w)"
  shows "filter (\<lambda>x. fst x = ch)
           (concat (map (\<lambda>pw. map (\<lambda>ch. (ch, NotWatching (fst pw) err)) (sinks_of (snd pw))) reg))
         = [(ch, NotWatching p err)]"
  using assms
proof (induction reg)
  case Nil
  then show ?case by simp
next
  case (Cons pw reg)
  have d: "distinct (sinks_of (snd pw))" "distinct (registered_sinks reg)"
    and disj: "set (sinks_of (snd pw)) \<inter> set (registered_sinks reg) = {}"
    using Cons.prems(1) by auto
  show ?case
  proof (cases "pw = (p, w)")
    case True
    then have "ch \<notin> set (registered_sinks reg)"
      using disj Cons.prems(3) by auto
    then have "filter (\<lambda>x. fst x = ch)
        (concat (map (\<lambda>pw. map (\<lambda>ch. (ch, NotWatching (fst pw) err)) (sinks_of (snd pw))) reg)) = []"
      by (auto simp: filter_empty_conv registered_sinks_def)
    then show ?thesis
      using True d(1) Cons.prems(3) by (simp add: filter_sends_in)
  next
    case False
    then have in_reg: "(p, w) \<in> set reg"
      using Cons.prems(2) by auto
    then have "ch \<in> set (registered_sinks reg)"
      using Cons.prems(3) by (force simp: registered_sinks_def)
    then have "ch \<notin> set (sinks_of (snd pw))"
      using disj by auto
    then show ?thesis
      using Cons.IH [OF d(2) in_reg Cons.prems(3)] by (simp add: filter_sends_out)
  qed
qed

lemma invalidateWatches_registry:
  assumes "registry_ok c" and "(p, w) \<in> set (watchers c)" and "ch \<in> set (sinks_of w)"
  shows "sink_events (invalidateWatches err c) ch = [NotWatching p err]"
proof -
  have "ch \<in> set (registered_sinks (watchers c))"
    using assms(2,3) by (force simp: registered_sinks_def)
  then have "filter (\<lambda>x. fst x = ch) (sinkLog c) = []"
    using assms(1) by (simp add: registry_ok_def sink_events_def list_all_iff)
  moreover have "distinct (registered_sinks (watchers c))"
    using assms(1) by (simp add: registry_ok_def)
  ultimately show "sink_events (invalidateWatches err c) ch = [NotWatching p err]"
    using filter_invalidated [OF _ assms(2,3), of err]
    by (simp add: sink_events_def invalidateWatches_sinkLog)
qed

text \<open>
  A pass whose handshake has failed starts no pipeline: only the callers' steps take
  effect, and they send nothing to a subscriber sink.
\<close>

lemma addWatcher_keys:
  "fst ` set (watchers (snd (addWatcher p k c))) = insert p (fst ` set (watchers c))"
proof -
  obtain wat where "watchers (snd (addWatcher p k c)) = AList.update p wat (watchers c)"
    by (cases k) (simp_all add: addWatcher_def make_chan_def Let_def)
  then show ?thesis
    by (simp add: dom_update)
qed

lemma caller_state:
  "state (snd (addWatcher p k c)) = state c"
  "state (snd (queueRequest oc c)) = state c"
  "state (fold (invalidateWatches_path err) reg c) = state c"
  "sinkLog (setState st c) = sinkLog c"
proof -
  show "state (snd (addWatcher p k c)) = state c"
    by (simp add: addWatcher_def make_chan_def Let_def)
  show "state (snd (queueRequest oc c)) = state c"
    by (simp add: queueRequest_def new_request_def nextXid_def make_chan_def)
  show "state (fold (invalidateWatches_path err) reg c) = state c"
    by (induction reg arbitrary: c)
      (simp_all add: invalidateWatches_path_def Let_def split: prod.splits)
  show "sinkLog (setState st c) = sinkLog c"
    by simp
qed

lemma stopped_step:
  assumes "pipeline_step t st (c, False, Some e) = (c', s, r)"
  shows "s = False \<and> r = Some e \<and> state c' = state c \<and> sinkLog c' = sinkLog c
         \<and> fst ` set (watchers c') =
             fst ` set (watchers c) \<union> (case st of Watch p k \<Rightarrow> {p} | _ \<Rightarrow> {})"
proof (cases st)
  case (Watch p k)
  then have "c' = snd (addWatcher p k c)" "s = False" "r = Some e"
    using assms by auto
  then show ?thesis
    by (simp add: Watch addWatcher_keys caller_state)
next
  case (Queue oc)
  then have "c' = snd (queueRequest oc c)" "s = False" "r = Some e"
    using assms by auto
  then show ?thesis
    by (simp add: Queue caller_state)
qed (use assms in auto)

lemma stopped_schedule:
  assumes "fold (pipeline_step t) steps (c, False, Some e) = (c', s, r)"
  shows "r = Some e \<and> state c' = state c \<and> sinkLog c' = sinkLog c
         \<and> fst ` set (watchers c') =
             fst ` set (watchers c) \<union> {p. \<exists>k. Watch p k \<in> set steps}"
  using assms
proof (induction steps arbitrary: c)
  case Nil
  then show ?case by simp
next
  case (Cons st steps)
  obtain c1 s1 r1 where st: "pipeline_step t st (c, False, Some e) = (c1, s1, r1)"
    by (cases "pipeline_step t st (c, False, Some e)")
  note one = stopped_step [OF st]
  have "fold (pipeline_step t) steps (c1, False, Some e) = (c', s, r)"
    using Cons.prems st one by simp
  note rest = Cons.IH [OF this]
  have "{p. \<exists>k. Watch p k \<in> set (st # steps)} =
      (case st of Watch p k \<Rightarrow> {p} | _ \<Rightarrow> {}) \<union> {p. \<exists>k. Watch p k \<in> set steps}"
    by (cases st) auto
  then show ?case
    using one rest by auto
qed

lemma registry_ok_pass_body:
  assumes "registry_ok c"
  shows "registry_ok (snd (pass_body t p c))"
proof (rule pass_body_invariant [where P = registry_ok and ok = "\<lambda>_. True"])
  show "registry_ok c" by (rule assms)
  show "list_all (\<lambda>_. True) (schedule p)"
    by (simp add: list_all_iff)
  show "registry_ok (setState st c)" if "registry_ok c" for c st
    using that by (rule registry_ok_frame) simp_all
  show "registry_ok (snd (snd (authenticate io c)))" if "registry_ok c" for c io
    using that by (rule registry_ok_frame) simp_all
  show "registry_ok (invalidateWatches ErrSessionExpired c)" if "registry_ok c" for c
    using that by (rule registry_ok_invalidateWatches)
  show "registry_ok (snd (queueRequest oc c))" if "registry_ok c" for c oc
    using that by (rule registry_ok_frame) simp_all
  show "registry_ok (snd (addWatcher p k c))" if "registry_ok c" for c p k
    using that by (rule registry_ok_addWatcher)
  show "registry_ok (snd (sendLoop_request io closing req (c\<lparr>sendChan := q\<rparr>)))"
    if "registry_ok c" for c io closing req q
    using that by (rule registry_ok_frame) simp_all
  show "registry_ok (snd (recvLoop_step t rd c))" if "registry_ok c" for c rd
    using that by (rule registry_ok_recvLoop_step)
qed

section \<open>The completion invariant\<close>

lemma deliveries_empty: "deliveries c ch = [] \<longleftrightarrow> ch \<notin> fst ` set (recvLog c)"
  by (auto simp: deliveries_def filter_empty_conv)

lemma completion_ok_iff:
  "completion_ok c \<longleftrightarrow>
     distinct (map fst (requests c))
     \<and> distinct (map recvChan (sendChan c))
     \<and> distinct (map (\<lambda>xr. recvChan (snd xr)) (requests c))
     \<and> (\<forall>r \<in> set (sendChan c). \<forall>xr \<in> set (requests c). recvChan r \<noteq> recvChan (snd xr))
     \<and> (\<forall>r \<in> set (sendChan c). recvChan r < nextChan c \<and> recvChan r \<notin> fst ` set (recvLog c))
     \<and> (\<forall>xr \<in> set (requests c).
            recvChan (snd xr) < nextChan c \<and> recvChan (snd xr) \<notin> fst ` set (recvLog c))
     \<and> (\<forall>x \<in> set (recvLog c). fst x < nextChan c)
     \<and> distinct (map fst (recvLog c))"
  unfolding completion_ok_def pending_def deliveries_empty list_all_iff
  by (auto simp: comp_def)

lemma completion_ok_frame:
  assumes "completion_ok c" and "sendChan c' = sendChan c" and "requests c' = requests c"
    and "recvLog c' = recvLog c" and "nextChan c \<le> nextChan c'"
  shows "completion_ok c'"
proof -
  have p: "pending c' = pending c" and d: "deliveries c' = deliveries c"
    using assms(2-4) by (simp_all add: pending_def deliveries_def fun_eq_iff)
  have "list_all (\<lambda>r. recvChan r < nextChan c' \<and> deliveries c (recvChan r) = []) (pending c)"
    using assms(1,5) unfolding completion_ok_def list_all_iff by force
  moreover have "list_all (\<lambda>x. fst x < nextChan c') (recvLog c)"
    using assms(1,5) unfolding completion_ok_def list_all_iff by force
  ultimately show ?thesis
    using assms(1) unfolding completion_ok_def p d assms(3,4) by simp
qed

lemma completion_ok_Connect: "completion_ok Connect"
  by (simp add: completion_ok_def Connect_def pending_def)

lemma completion_ok_queueRequest:
  assumes "completion_ok c"
  shows "completion_ok (snd (queueRequest oc c))"
  using assms unfolding completion_ok_iff
  by (auto simp: less_Suc_eq)

lemma completion_ok_delivered:
  assumes "completion_ok c" and "sendChan c = req # q"
  shows "completion_ok (send_error (recvChan req) e (c\<lparr>sendChan := q\<rparr>))"
  using assms unfolding completion_ok_iff
  by (auto simp: image_iff)

lemma completion_ok_inserted:
  assumes "completion_ok c" and "sendChan c = req # q"
  shows "completion_ok (c\<lparr>sendChan := q, requests := AList.update (rxid req) req (requests c)\<rparr>)"
    (is "completion_ok ?c'")
proof (cases "map_of (requests c) (rxid req)")
  case None
  have r': "requests ?c' = requests c @ [(rxid req, req)]"
    using update_absent [OF None] by simp
  have rest: "sendChan ?c' = q" "recvLog ?c' = recvLog c" "nextChan ?c' = nextChan c"
    by simp_all
  have "rxid req \<notin> fst ` set (requests c)"
    using None by (simp add: map_of_eq_None_iff)
  then show ?thesis
    unfolding completion_ok_iff [of ?c'] r' rest
    using assms(1) [unfolded completion_ok_iff assms(2)]
    by (auto simp: image_iff)
next
  case (Some old)
  have d: "distinct (map fst (requests c))"
    using assms(1) by (simp add: completion_ok_def)
  obtain pre post where sp: "requests c = pre @ (rxid req, old) # post"
    "AList.update (rxid req) req (requests c) = pre @ (rxid req, req) # post"
    using alist_split [OF Some d, of req] by blast
  have r': "requests ?c' = pre @ (rxid req, req) # post"
    using sp(2) by simp
  have rest: "sendChan ?c' = q" "recvLog ?c' = recvLog c" "nextChan ?c' = nextChan c"
    by simp_all
  show ?thesis
    unfolding completion_ok_iff [of ?c'] r' rest
    using assms(1) [unfolded completion_ok_iff assms(2) sp(1)]
    by (auto simp: image_iff)
qed

lemma completion_ok_sendLoop_request:
  assumes "completion_ok c" and "writeErr io = None" and "sendChan c = req # q"
  shows "completion_ok (snd (sendLoop_request io closing req (c\<lparr>sendChan := q\<rparr>)))"
proof -
  have "snd (sendLoop_request io closing req (c\<lparr>sendChan := q\<rparr>)) =
          c\<lparr>sendChan := q, requests := AList.update (rxid req) req (requests c)\<rparr>
        \<or> (\<exists>e. snd (sendLoop_request io closing req (c\<lparr>sendChan := q\<rparr>)) =
              send_error (recvChan req) e (c\<lparr>sendChan := q\<rparr>))"
    using assms(2) by (auto simp: sendLoop_request_def Let_def split: option.splits)
  then show ?thesis
    using completion_ok_inserted [OF assms(1,3)] completion_ok_delivered [OF assms(1,3)]
    by auto
qed

lemma completion_ok_recvLoop_response:
  assumes "completion_ok c"
  shows "completion_ok (snd (recvLoop_response t h b c))" (is "completion_ok ?c'")
proof (cases "map_of (requests c) (Xid h)")
  case None
  then have "?c' = (if 0 <s Zxid h then c\<lparr>lastZxid := Zxid h\<rparr> else c)"
    by (simp add: recvLoop_response_def)
  then show ?thesis
    using assms by (auto intro: completion_ok_frame)
next
  case (Some req)
  have d: "distinct (map fst (requests c))"
    using assms(1) by (simp add: completion_ok_def)
  obtain pre post where sp: "requests c = pre @ (Xid h, req) # post"
    "AList.delete (Xid h) (requests c) = pre @ post"
    using alist_split [OF Some d, of req] by blast
  have rest: "sendChan ?c' = sendChan c" "nextChan ?c' = nextChan c"
    by simp_all
  have r': "requests ?c' = pre @ post"
    using Some sp(2) by (simp add: recvLoop_response_def Let_def)
  have "\<exists>e. recvLog ?c' = recvLog c @ [(recvChan req, e)]"
    using Some by (simp add: recvLoop_response_def Let_def)
  then obtain e where l': "recvLog ?c' = recvLog c @ [(recvChan req, e)]"
    by blast
  show ?thesis
    unfolding completion_ok_iff [of ?c'] r' rest l'
    using assms(1) [unfolded completion_ok_iff sp(1)]
    by (auto simp: image_iff)
qed

lemma completion_ok_recvLoop_step:
  assumes "completion_ok c"
  shows "completion_ok (snd (recvLoop_step t rd c))"
  using recvLoop_step_conn [of t rd c] assms
  by (auto intro: completion_ok_frame completion_ok_recvLoop_response)

lemma completion_ok_flushRequests:
  assumes "completion_ok c"
  shows "completion_ok (flushRequests e c)" (is "completion_ok ?c'")
proof -
  have f: "requests ?c' = []" "sendChan ?c' = sendChan c" "nextChan ?c' = nextChan c"
    "recvLog ?c' = recvLog c @ map (\<lambda>xr. (recvChan (snd xr), Some e)) (requests c)"
    by simp_all
  show ?thesis
    unfolding completion_ok_iff [of ?c'] f
    using assms(1) [unfolded completion_ok_iff]
    by (auto simp: image_iff comp_def) fastforce+
qed

lemma delivered_in_frame:
  "delivered_in A c \<Longrightarrow> recvLog c' = recvLog c \<Longrightarrow> delivered_in A c'"
  by (simp add: delivered_in_def)

lemma delivered_in_sendLoop_request:
  assumes "delivered_in A c" and "writeErr io = None" and "set (codec_results (SendReq io)) \<subseteq> A"
    and "Some ErrConnectionClosed \<in> A"
  shows "delivered_in A (snd (sendLoop_request io closing req (c\<lparr>sendChan := q\<rparr>)))"
  using assms
  by (auto simp: delivered_in_def sendLoop_request_def Let_def split: option.splits)

lemma delivered_in_recvLoop_response:
  assumes "delivered_in A c" and "b \<in> A" and "Some ` range t \<subseteq> A"
  shows "delivered_in A (snd (recvLoop_response t h b c))"
  using assms
  by (auto simp: delivered_in_def recvLoop_response_def Let_def split: option.splits)

lemma delivered_in_recvLoop_step:
  assumes "delivered_in A c" and "set (codec_results (Recv rd)) \<subseteq> A" and "Some ` range t \<subseteq> A"
  shows "delivered_in A (snd (recvLoop_step t rd c))"
proof -
  have "snd (recvLoop_step t rd c) = c
   \<or> (\<exists>wev. snd (recvLoop_step t rd c) = recvLoop_event wev c)
   \<or> (\<exists>fr h. rd = Inr fr \<and> snd (recvLoop_step t rd c) = snd (recvLoop_response t h (body fr) c))"
    by (auto simp: recvLoop_step_def split: sum.splits)
  then show ?thesis
    using assms delivered_in_recvLoop_response [of A c _ t]
    by (auto intro: delivered_in_frame)
qed

lemma delivered_in_flushRequests:
  assumes "delivered_in A c" and "Some e \<in> A"
  shows "delivered_in A (flushRequests e c)"
  using assms by (auto simp: delivered_in_def)

lemma sinks_sound_steps:
  assumes A: "{Some ErrConnectionClosed, Some ErrSessionExpired} \<union> Some ` range t \<subseteq> A"
    and ok: "ok = (\<lambda>st. no_write_failure st \<and> set (codec_results st) \<subseteq> A)"
  shows "sinks_sound A c \<Longrightarrow> sinks_sound A (setState st c)"
    and "sinks_sound A c \<Longrightarrow> sinks_sound A (snd (snd (authenticate io c)))"
    and "sinks_sound A c \<Longrightarrow> sinks_sound A (invalidateWatches ErrSessionExpired c)"
    and "sinks_sound A c \<Longrightarrow> sinks_sound A (snd (queueRequest oc c))"
    and "sinks_sound A c \<Longrightarrow> sinks_sound A (snd (addWatcher p k c))"
    and "sinks_sound A c \<Longrightarrow> ok (SendReq sio) \<Longrightarrow> sendChan c = req # q \<Longrightarrow>
           sinks_sound A (snd (sendLoop_request sio closing req (c\<lparr>sendChan := q\<rparr>)))"
    and "sinks_sound A c \<Longrightarrow> ok (Recv rd) \<Longrightarrow> sinks_sound A (snd (recvLoop_step t rd c))"
    and "sinks_sound A c \<Longrightarrow> e = ErrConnectionClosed \<or> e = ErrSessionExpired \<Longrightarrow>
           sinks_sound A (flushRequests e c)"
proof -
  show "sinks_sound A c \<Longrightarrow> sinks_sound A (setState st c)"
    unfolding sinks_sound_def
    by (auto intro: completion_ok_frame [of c] delivered_in_frame [of A c])
  show "sinks_sound A c \<Longrightarrow> sinks_sound A (snd (snd (authenticate io c)))"
    unfolding sinks_sound_def
    by (auto intro: completion_ok_frame [of c] delivered_in_frame [of A c])
  show "sinks_sound A c \<Longrightarrow> sinks_sound A (invalidateWatches ErrSessionExpired c)"
    unfolding sinks_sound_def
    by (auto intro: completion_ok_frame [of c] delivered_in_frame [of A c])
  show "sinks_sound A c \<Longrightarrow> sinks_sound A (snd (queueRequest oc c))"
    unfolding sinks_sound_def
    by (auto intro: completion_ok_queueRequest delivered_in_frame [of A c])
  show "sinks_sound A c \<Longrightarrow> sinks_sound A (snd (addWatcher p k c))"
    unfolding sinks_sound_def
    by (auto intro: completion_ok_frame [of c] delivered_in_frame [of A c])
  show "sinks_sound A c \<Longrightarrow> ok (SendReq sio) \<Longrightarrow> sendChan c = req # q \<Longrightarrow>
           sinks_sound A (snd (sendLoop_request sio closing req (c\<lparr>sendChan := q\<rparr>)))"
    unfolding sinks_sound_def ok
    using A completion_ok_sendLoop_request [of c sio req q closing]
      delivered_in_sendLoop_request [of A c sio closing req q]
    by simp
  show "sinks_sound A c \<Longrightarrow> ok (Recv rd) \<Longrightarrow> sinks_sound A (snd (recvLoop_step t rd c))"
    unfolding sinks_sound_def ok
    using A completion_ok_recvLoop_step [of c t rd] delivered_in_recvLoop_step [of A c rd t]
    by simp
  show "sinks_sound A c \<Longrightarrow> e = ErrConnectionClosed \<or> e = ErrSessionExpired \<Longrightarrow>
           sinks_sound A (flushRequests e c)"
    unfolding sinks_sound_def
    using A completion_ok_flushRequests [of c e] delivered_in_flushRequests [of A c e]
    by auto
qed

lemma outcomes_steps:
  "st \<in> set steps \<Longrightarrow> set (codec_results st) \<subseteq> outcomes t steps"
  by (auto simp: outcomes_def)

lemma filter_key_at_most_one:
  "distinct (map fst xs) \<Longrightarrow> length (filter (\<lambda>x. fst x = ch) xs) \<le> 1"
  by (induction xs) (auto simp: filter_empty_conv image_iff)

lemma deliveries_at_most_one:
  "distinct (map fst (recvLog c)) \<Longrightarrow> length (deliveries c ch) \<le> 1"
  unfolding deliveries_def using filter_key_at_most_one [of "recvLog c" ch] by simp

lemma filter_flushed:
  "distinct (map f xs) \<Longrightarrow> x \<in> set xs \<Longrightarrow>
   filter (\<lambda>y. fst y = f x) (map (\<lambda>xr. (f xr, v)) xs) = [(f x, v)]"
  by (induction xs) (auto simp: filter_empty_conv image_iff)

lemma flushRequests_delivers:
  assumes "completion_ok c" and "xr \<in> set (requests c)"
  shows "deliveries (flushRequests e c) (recvChan (snd xr)) = [Some e]"
proof -
  have "recvChan (snd xr) \<notin> fst ` set (recvLog c)"
    and d: "distinct (map (\<lambda>xr. recvChan (snd xr)) (requests c))"
    using assms unfolding completion_ok_iff by auto
  then have "filter (\<lambda>y. fst y = recvChan (snd xr)) (recvLog c) = []"
    by (auto simp: filter_empty_conv image_iff)
  then show ?thesis
    using filter_flushed [OF d assms(2), of "Some e"]
    by (simp add: deliveries_def)
qed

section \<open>Facts about the protected create\<close>

lemma Split_nonempty [simp]: "Split s \<noteq> []"
  by (induction s) (auto split: list.splits)

lemma scan_children_safe:
  "safe_children chs \<Longrightarrow>
   scan_children guidStr rootPath chs =
     map_option (\<lambda>p. Return (rootPath @ ''/'' @ p) None) (find (embeds_guid guidStr) chs)"
proof (induction chs)
  case Nil
  show ?case by simp
next
  case (Cons p chs)
  have l: "Split p ! (length (Split p) - 1) = last (Split p)"
    by (simp add: last_conv_nth)
  have pl: "length protectedPrefix = 3"
    by (simp add: protectedPrefix_def)
  have step: "scan_children guidStr rootPath (p # chs) =
      (if HasPrefix (last (Split p)) ''_c_'' then
         (case slice (last (Split p)) 3 35 of
            None \<Rightarrow> Some Panic
          | Some g \<Rightarrow> if g = guidStr then Some (Return (rootPath @ ''/'' @ p) None)
                      else scan_children guidStr rootPath chs)
       else scan_children guidStr rootPath chs)"
    unfolding scan_children.simps Let_def l pl by (simp add: protectedPrefix_def)
  have safe: "safe_children chs"
    and here: "HasPrefix (last (Split p)) ''_c_'' \<longrightarrow> 35 \<le> length (last (Split p))"
    using Cons.prems by (simp_all add: safe_children_def)
  show ?case
    unfolding step using Cons.IH [OF safe] here
    by (simp add: embeds_guid_def slice_def Let_def)
qed

lemma attempts_spec:
  assumes "\<forall>j. i \<le> j \<and> j < i + n \<longrightarrow> safe_children (fst (children j))"
  shows "attempts create children guidStr rootPath protectedPath data acl i n err =
         spec_attempts create children guidStr rootPath protectedPath data acl [i..<i + n] err"
  using assms
proof (induction n arbitrary: i err)
  case 0
  show ?case by simp
next
  case (Suc n)
  have upt: "[i..<i + Suc n] = i # [Suc i..<Suc i + n]"
    by (simp add: upt_conv_Cons)
  have IH: "attempts create children guidStr rootPath protectedPath data acl (Suc i) n e =
      spec_attempts create children guidStr rootPath protectedPath data acl [Suc i..<Suc (i + n)] e" for e
    using Suc.IH [of "Suc i" e] Suc.prems by simp
  have safe: "safe_children (fst (children i))"
    using Suc.prems by simp
  obtain created e where c: "create i = (created, e)" by (cases "create i")
  obtain chs ce where ch: "children i = (chs, ce)" by (cases "children i")
  have sc: "scan_children guidStr rootPath chs =
      map_option (\<lambda>p. Return (rootPath @ ''/'' @ p) None) (find (embeds_guid guidStr) chs)"
    using scan_children_safe [of chs] safe ch by simp
  show ?case
    unfolding upt attempts.simps spec_attempts.simps
    by (auto simp: IH c ch sc spec_decision_def spec_calls_def Let_def
        simp del: upt_Suc split: option.splits prod.splits)
qed

lemma Sprintf_x_length: "length (Sprintf_x bs) = 2 * length bs"
  by (induction bs) (simp_all add: Sprintf_x_def)

lemma hexdigit_hex: "n < 16 \<Longrightarrow> hexdigit n \<in> set ''0123456789abcdef''"
  unfolding hexdigit_def by (rule nth_mem) simp

lemma Sprintf_x_hex: "set (Sprintf_x bs) \<subseteq> set ''0123456789abcdef''"
proof -
  have "unat b div 16 < 16" "unat b mod 16 < 16" for b :: "8 word"
    using unsigned_less [of b, where 'a = nat] by simp_all
  then have "hexdigit (unat b div 16) \<in> set ''0123456789abcdef''"
    "hexdigit (unat b mod 16) \<in> set ''0123456789abcdef''" for b :: "8 word"
    by (simp_all only: hexdigit_hex)
  then show ?thesis
    unfolding Sprintf_x_def by (induction bs) auto
qed

lemma protected_paths:
  "(let parts = Split path;
        parts = parts[length parts - 1 := x @ parts ! (length parts - 1)]
    in f (Join (take (length parts - 1) parts)) (Join parts)) =
   f (Join (butlast (Split path))) (Join (butlast (Split path) @ [x @ last (Split path)]))"
proof -
  have ne: "Split path \<noteq> []" by simp
  have "xs \<noteq> [] \<Longrightarrow> xs[length xs - 1 := y] = butlast xs @ [y]" for xs :: "string list" and y
    by (induction xs rule: rev_induct) auto
  then have "(Split path)[length (Split path) - 1 := y] = butlast (Split path) @ [y]" for y
    using ne by blast
  then show ?thesis
    using ne by (simp add: Let_def last_conv_nth butlast_conv_take)
qed

section \<open>Exists and ExistsW on a failed request\<close>

text \<open>
  C9. When the underlying request of Exists or ExistsW fails with an error other than
  NoNode, the boolean returned is true and the same error is returned with it; the
  boolean is false exactly in the NoNode case, and there the error returned is nil.
\<close>

theorem Exists_bool_on_error:
  "(err \<noteq> None \<and> err \<noteq> Some ErrNoNode \<longrightarrow>
      fst (Exists (stat, err)) = True \<and> snd (snd (Exists (stat, err))) = err
      \<and> fst (fst (ExistsW path (stat, err) c)) = True
      \<and> snd (snd (snd (fst (ExistsW path (stat, err) c)))) = err)
   \<and> (fst (Exists (stat, err)) = False \<longleftrightarrow> err = Some ErrNoNode)
   \<and> (fst (fst (ExistsW path (stat, err) c)) = False \<longleftrightarrow> err = Some ErrNoNode)
   \<and> (err = Some ErrNoNode \<longrightarrow>
      snd (snd (Exists (stat, err))) = None
      \<and> snd (snd (snd (fst (ExistsW path (stat, err) c)))) = None)"
  by (auto simp: Exists_def ExistsW_def Let_def split: prod.splits)

theorem Exists_bool_on_error_witness:
  "fst (Exists ((), Some ErrConnectionClosed)) = True
   \<and> snd (snd (Exists ((), Some ErrConnectionClosed))) = Some ErrConnectionClosed
   \<and> fst (fst (ExistsW ''/a'' ((), Some ErrSessionExpired) Connect)) = True
   \<and> snd (snd (snd (fst (ExistsW ''/a'' ((), Some ErrSessionExpired) Connect)))) = Some ErrSessionExpired
   \<and> fst (Exists ((), Some ErrNoNode)) = False
   \<and> snd (snd (Exists ((), Some ErrNoNode))) = None"
  using Exists_bool_on_error [of "Some ErrConnectionClosed" "()" "''/a''" Connect]
    Exists_bool_on_error [of "Some ErrSessionExpired" "()" "''/a''" Connect]
    Exists_bool_on_error [of "Some ErrNoNode" "()" "''/a''" Connect]
  by simp

section \<open>The last transaction id seen\<close>

text \<open>
  C2, as the claim states it, fails: a response whose zxid is positive but smaller than
  \<open>lastZxid\<close> lowers \<open>lastZxid\<close>. From the initial connection, a response with zxid 10
  followed by one with zxid 5 leaves \<open>lastZxid = 5\<close>.
\<close>

theorem lastZxid_lowered_by_smaller_zxid:
  "lastZxid (snd (recvLoop (\<lambda>_. ErrNoNode)
      [Inr \<lparr>header = Inr \<lparr>Xid = 1, Zxid = 10, ErrCode = 0\<rparr>, event = Inl EOF, body = None\<rparr>]
      Connect)) = 10
   \<and> lastZxid (snd (recvLoop (\<lambda>_. ErrNoNode)
      [Inr \<lparr>header = Inr \<lparr>Xid = 1, Zxid = 10, ErrCode = 0\<rparr>, event = Inl EOF, body = None\<rparr>,
       Inr \<lparr>header = Inr \<lparr>Xid = 2, Zxid = 5, ErrCode = 0\<rparr>, event = Inl EOF, body = None\<rparr>]
      Connect)) = 5
   \<and> (0 :: int64) <s 5 \<and> \<not> (10 :: int64) \<le>s 5"
  by (simp add: recvLoop_step_def recvLoop_response_def Connect_def word_sless_alt)

text \<open>
  C2, amended. After the receive pipeline has processed a frame whose header decodes,
  \<open>lastZxid\<close> is the frame's zxid when the frame is a request response (xid not
  negative) with a positive zxid, and is unchanged for every other frame. So after a
  request response with a positive zxid, \<open>lastZxid\<close> is at least that zxid; it is at
  least its prior value when the zxid is.
\<close>

theorem lastZxid_after_frame:
  "header fr = Inr h \<Longrightarrow>
   lastZxid (snd (recvLoop_step toError (Inr fr) c)) =
     (if \<not> Xid h <s 0 \<and> 0 <s Zxid h then Zxid h else lastZxid c)"
  by (auto simp: recvLoop_step_def recvLoop_response_def recvLoop_event_lastZxid Let_def
      send_error_def word_sless_alt split: sum.splits option.splits)

theorem lastZxid_after_frame_witness:
  "lastZxid (snd (recvLoop_step (\<lambda>_. ErrNoNode)
      (Inr \<lparr>header = Inr \<lparr>Xid = 1, Zxid = 10, ErrCode = 0\<rparr>, event = Inl EOF, body = None\<rparr>)
      Connect)) = 10
   \<and> lastZxid (snd (recvLoop_step (\<lambda>_. ErrNoNode)
      (Inr \<lparr>header = Inr \<lparr>Xid = - 2, Zxid = 10, ErrCode = 0\<rparr>, event = Inl EOF, body = None\<rparr>)
      Connect)) = 0"
  using lastZxid_after_frame [of
      "\<lparr>header = Inr \<lparr>Xid = 1, Zxid = 10, ErrCode = 0\<rparr>, event = Inl EOF, body = None\<rparr>"
      "\<lparr>Xid = 1, Zxid = 10, ErrCode = 0\<rparr>" "\<lambda>_. ErrNoNode" Connect]
    lastZxid_after_frame [of
      "\<lparr>header = Inr \<lparr>Xid = - 2, Zxid = 10, ErrCode = 0\<rparr>, event = Inl EOF, body = None\<rparr>"
      "\<lparr>Xid = - 2, Zxid = 10, ErrCode = 0\<rparr>" "\<lambda>_. ErrNoNode" Connect]
  by (simp add: word_sless_alt Connect_def)

section \<open>Dispatch of a watch event\<close>

text \<open>
  C3. For a watch event (xid -1) on a registered path, the receive pipeline sends the
  event to exactly the sinks the protocol names for the event type (the exist sinks for
  NodeCreated; the exist and the data sinks for NodeDeleted and NodeDataChanged; the
  child sinks for NodeChildrenChanged) and clears exactly those sequences; afterwards
  the path has no entry if and only if all three sequences are empty, and the entries of
  the other paths are as before.
\<close>

theorem watch_event_dispatch:
  assumes "map_of (watchers c) (wPath wev) = Some wat"
    and "header fr = Inr h" and "Xid h = - 1" and "event fr = Inr wev"
  shows "let c' = snd (recvLoop_step toError (Inr fr) c);
             ev = \<lparr>Type = wType wev, State = wState wev, Path = wPath wev, Err = None\<rparr>;
             wat' = spec_cleared (wType wev) wat
         in sinkLog c' = sinkLog c @ map (\<lambda>ch. (ch, ev)) (spec_fired (wType wev) wat)
            \<and> map_of (watchers c') (wPath wev) =
                (if dataWatchers wat' = [] \<and> existWatchers wat' = [] \<and> childWatchers wat' = []
                 then None else Some wat')
            \<and> (\<forall>p. p \<noteq> wPath wev \<longrightarrow> map_of (watchers c') p = map_of (watchers c) p)"
proof -
  have step: "snd (recvLoop_step toError (Inr fr) c) = recvLoop_event wev c"
    using assms(2-4) by (simp add: recvLoop_step_def)
  show ?thesis
    unfolding Let_def step
    using recvLoop_event_registered [OF assms(1)] by simp
qed

theorem watch_event_dispatch_witness:
  "let c = Connect\<lparr>watchers := [(''/a'', \<lparr>dataWatchers = [1], existWatchers = [0],
                                          childWatchers = []\<rparr>)], nextChan := 2\<rparr>;
       c' = snd (recvLoop_step (\<lambda>_. ErrNoNode)
              (Inr \<lparr>header = Inr \<lparr>Xid = - 1, Zxid = - 1, ErrCode = 0\<rparr>,
                    event = Inr \<lparr>wType = EventNodeCreated, wState = StateHasSession,
                                 wPath = ''/a''\<rparr>,
                    body = None\<rparr>) c)
   in sinkLog c' = [(0, \<lparr>Type = EventNodeCreated, State = StateHasSession, Path = ''/a'',
                          Err = None\<rparr>)]
      \<and> map_of (watchers c') ''/a'' =
          Some \<lparr>dataWatchers = [1], existWatchers = [], childWatchers = []\<rparr>"
  using watch_event_dispatch [of
      "Connect\<lparr>watchers := [(''/a'', \<lparr>dataWatchers = [1], existWatchers = [0],
                                         childWatchers = []\<rparr>)], nextChan := 2\<rparr>"
      "\<lparr>wType = EventNodeCreated, wState = StateHasSession, wPath = ''/a''\<rparr>"
      "\<lparr>dataWatchers = [1], existWatchers = [0], childWatchers = []\<rparr>"
      "\<lparr>header = Inr \<lparr>Xid = - 1, Zxid = - 1, ErrCode = 0\<rparr>,
        event = Inr \<lparr>wType = EventNodeCreated, wState = StateHasSession, wPath = ''/a''\<rparr>,
        body = None\<rparr>"
      "\<lparr>Xid = - 1, Zxid = - 1, ErrCode = 0\<rparr>" "\<lambda>_. ErrNoNode"]
  by (simp add: Let_def spec_fired_def spec_cleared_def Connect_def)

section \<open>A rejected session\<close>

text \<open>
  C4. When the connect response carries session id 0, the handshake sets \<open>sessionId\<close>
  to 0, \<open>passwd\<close> to the empty credential and \<open>state\<close> to Expired, and returns
  ErrSessionExpired; \<open>timeout\<close> and \<open>xid\<close> are as before.
\<close>

theorem authenticate_session_rejected:
  "SessionId r = 0 \<Longrightarrow>
   (case authenticate (Reply r) c of
      (err, sw, c') \<Rightarrow>
        err = Some ErrSessionExpired \<and> sessionId c' = 0 \<and> passwd c' = emptyPassword
        \<and> state c' = StateExpired \<and> timeout c' = timeout c \<and> xid c' = xid c)"
  by (simp add: authenticate_def)

theorem authenticate_session_rejected_witness:
  "(case authenticate (Reply \<lparr>TimeOut = 0, SessionId = 0, Passwd = []\<rparr>)
          (Connect\<lparr>xid := 5, sessionId := 7, timeout := 4000, passwd := [1, 2]\<rparr>) of
      (err, sw, c') \<Rightarrow>
        err = Some ErrSessionExpired \<and> sessionId c' = 0 \<and> passwd c' = []
        \<and> state c' = StateExpired \<and> timeout c' = 4000 \<and> xid c' = 5)"
  using authenticate_session_rejected [of "\<lparr>TimeOut = 0, SessionId = 0, Passwd = []\<rparr>"
      "Connect\<lparr>xid := 5, sessionId := 7, timeout := 4000, passwd := [1, 2]\<rparr>"]
  by (simp add: emptyPassword_def Connect_def split: prod.splits)

section \<open>The request counter\<close>

text \<open>
  C5, as the claim states it, fails: a connect response with session id 0 differs from
  a prior session id 7, and the counter is not reset (it stays 5).
\<close>

theorem xid_kept_when_session_rejected:
  "SessionId \<lparr>TimeOut = 0, SessionId = 0, Passwd = []\<rparr> \<noteq> sessionId (Connect\<lparr>xid := 5, sessionId := 7\<rparr>)
   \<and> xid (snd (snd (authenticate (Reply \<lparr>TimeOut = 0, SessionId = 0, Passwd = []\<rparr>)
                      (Connect\<lparr>xid := 5, sessionId := 7\<rparr>)))) = 5"
  by (simp add: authenticate_def Connect_def)

text \<open>
  C5, amended. Over a stretch in which every connect response carries the session id
  the connection already has, and in which the counter stays below \<open>2 ^ 31\<close>, the xids
  assigned to the submitted requests are the counter's value plus 1, plus 2, and so on:
  strictly increasing, and starting at 1 when the counter was 0. A handshake sets the
  counter to 0 exactly when its connect response carries a session id that is not 0 and
  differs from the prior one; every other handshake leaves the counter as it is.
\<close>

theorem xids_within_session:
  assumes "list_all (same_session (sessionId c)) ops"
    and "sint (xid c) + int (submits ops) < 2 ^ 31"
  shows "map sint (assigned_xids ops c) = map (\<lambda>k. sint (xid c) + 1 + int k) [0..<submits ops]
         \<and> sorted_wrt (<s) (assigned_xids ops c)
         \<and> (xid c = 0 \<and> 0 < submits ops \<longrightarrow> hd (assigned_xids ops c) = 1)
         \<and> (\<forall>io. xid (snd (snd (authenticate io c))) =
               (case io of
                  Reply r \<Rightarrow> if SessionId r \<noteq> 0 \<and> SessionId r \<noteq> sessionId c then 0 else xid c
                | _ \<Rightarrow> xid c))"
proof -
  have eq: "assigned_xids ops c = map (\<lambda>k. xid c + 1 + of_nat k) [0..<submits ops]"
    by (rule assigned_xids_same_session [OF assms(1)])
  have s: "sint (xid c + 1 + of_nat k) = sint (xid c) + 1 + int k" if "k < submits ops" for k
    using that assms(2) by (intro sint_xid_plus) auto
  have m: "map sint (assigned_xids ops c) =
           map (\<lambda>k. sint (xid c) + 1 + int k) [0..<submits ops]"
    unfolding eq using s by simp
  have "sorted_wrt (<) (map sint (assigned_xids ops c))"
    unfolding m by (simp add: sorted_wrt_map sorted_wrt_iff_nth_less)
  moreover have "(<s) = (\<lambda>x y :: int32. sint x < sint y)"
    by (auto simp: fun_eq_iff word_sless_alt)
  ultimately have sorted: "sorted_wrt (<s) (assigned_xids ops c)"
    by (simp add: sorted_wrt_map)
  have first: "hd (assigned_xids ops c) = 1" if "xid c = 0" "0 < submits ops"
    unfolding eq using that by (simp add: hd_map upt_conv_Cons del: upt_Suc)
  show ?thesis
    using m sorted first authenticate_xid by blast
qed

theorem xids_within_session_witness:
  "map sint (assigned_xids
      [Submit opGetData, Handshake (Reply \<lparr>TimeOut = 4000, SessionId = 7, Passwd = []\<rparr>),
       Submit opExists, Handshake (ReadFailed EOF), Submit opDelete]
      (Connect\<lparr>sessionId := 7\<rparr>)) = [1, 2, 3]"
  using xids_within_session [of "Connect\<lparr>sessionId := 7\<rparr>"
      "[Submit opGetData, Handshake (Reply \<lparr>TimeOut = 4000, SessionId = 7, Passwd = []\<rparr>),
        Submit opExists, Handshake (ReadFailed EOF), Submit opDelete]"]
  by (simp add: Connect_def upt_rec)

section \<open>The set-watches request of the handshake\<close>

text \<open>
  C6. When the handshake succeeds, it has handed on at most one set-watches request.
  There is none when the registry is empty or the bytes of the included paths add up
  to zero. Otherwise there is one: it carries \<open>lastZxid\<close>, and each of its three lists
  holds exactly the paths of the registry whose sequence of that kind is not empty.
\<close>

theorem setWatches_after_handshake:
  assumes "authenticate io c = (None, sw, c')"
  shows "sw =
          (if watchers c = [] \<or> included_bytes (watchers c) = 0 then None
           else Some \<lparr>RealtiveZxid = lastZxid c,
                      DataWatches = watched_paths dataWatchers (watchers c),
                      ExistWatches = watched_paths existWatchers (watchers c),
                      ChildWatches = watched_paths childWatchers (watchers c)\<rparr>)
         \<and> (\<forall>kind p. p \<in> set (watched_paths kind (watchers c)) \<longleftrightarrow>
               (\<exists>w. (p, w) \<in> set (watchers c) \<and> kind w \<noteq> []))"
proof -
  have "sw = sendSetWatches c"
    using assms by (rule authenticate_ok_setWatches)
  moreover have "p \<in> set (watched_paths kind (watchers c)) \<longleftrightarrow>
      (\<exists>w. (p, w) \<in> set (watchers c) \<and> kind w \<noteq> [])" for kind p
    by (force simp: watched_paths_def)
  ultimately show ?thesis
    by (simp add: sendSetWatches_eq)
qed

theorem setWatches_after_handshake_witness:
  "fst (snd (authenticate (Reply \<lparr>TimeOut = 4000, SessionId = 7, Passwd = [9]\<rparr>)
      (Connect\<lparr>lastZxid := 12, sessionId := 7,
         watchers := [(''/a'', \<lparr>dataWatchers = [1], existWatchers = [0], childWatchers = []\<rparr>),
                      (''/b'', \<lparr>dataWatchers = [], existWatchers = [], childWatchers = [2]\<rparr>)],
         nextChan := 3\<rparr>))) =
     Some \<lparr>RealtiveZxid = 12, DataWatches = [''/a''], ExistWatches = [''/a''],
           ChildWatches = [''/b'']\<rparr>"
  using setWatches_after_handshake [of "Reply \<lparr>TimeOut = 4000, SessionId = 7, Passwd = [9]\<rparr>"
      "Connect\<lparr>lastZxid := 12, sessionId := 7,
         watchers := [(''/a'', \<lparr>dataWatchers = [1], existWatchers = [0], childWatchers = []\<rparr>),
                      (''/b'', \<lparr>dataWatchers = [], existWatchers = [], childWatchers = [2]\<rparr>)],
         nextChan := 3\<rparr>"
      "fst (snd (authenticate (Reply \<lparr>TimeOut = 4000, SessionId = 7, Passwd = [9]\<rparr>)
         (Connect\<lparr>lastZxid := 12, sessionId := 7,
            watchers := [(''/a'', \<lparr>dataWatchers = [1], existWatchers = [0], childWatchers = []\<rparr>),
                         (''/b'', \<lparr>dataWatchers = [], existWatchers = [], childWatchers = [2]\<rparr>)],
            nextChan := 3\<rparr>)))"
      "snd (snd (authenticate (Reply \<lparr>TimeOut = 4000, SessionId = 7, Passwd = [9]\<rparr>)
         (Connect\<lparr>lastZxid := 12, sessionId := 7,
            watchers := [(''/a'', \<lparr>dataWatchers = [1], existWatchers = [0], childWatchers = []\<rparr>),
                         (''/b'', \<lparr>dataWatchers = [], existWatchers = [], childWatchers = [2]\<rparr>)],
            nextChan := 3\<rparr>)))"]
  by (simp add: authenticate_def Connect_def Let_def watched_paths_def included_bytes_def)

section \<open>Invalidation of the watches on session expiry\<close>

text \<open>
  C8. Take the connection \<open>c0\<close> after any number of passes of the session loop, and a
  pass \<open>p\<close> whose handshake is answered with session id 0. Let \<open>c\<close> be the connection
  when the body of the pass is over (line 190) and \<open>c'\<close> the connection at the end of
  the pass. The handshake has returned ErrSessionExpired and the state is Expired.
  Every sink registered in \<open>c0\<close> has been sent exactly one event in all,
  EventNotWatching with state Disconnected, the path the sink was registered under, and
  ErrSessionExpired; and it is registered no longer. The registry holds the paths that
  the callers watched during the pass and no other: it is empty when they watched none.
\<close>

theorem watches_invalidated_on_expiry:
  assumes "hs p = Reply r" and "SessionId r = 0"
  shows "let c0 = loop toError passes Connect;
             (err, c) = pass_body toError p c0;
             c' = loop_pass toError p c0
         in err = ErrSessionExpired \<and> state c = StateExpired
            \<and> (\<forall>pw \<in> set (watchers c0). \<forall>ch \<in> set (sinks_of (snd pw)).
                  sink_events c ch = [NotWatching (fst pw) ErrSessionExpired]
                  \<and> sink_events c' ch = [NotWatching (fst pw) ErrSessionExpired]
                  \<and> ch \<notin> set (registered_sinks (watchers c)))
            \<and> fst ` set (watchers c) = {path. \<exists>wt. Watch path wt \<in> set (schedule p)}
            \<and> ((\<forall>path wt. Watch path wt \<notin> set (schedule p)) \<longrightarrow> watchers c = [])
            \<and> watchers c' = watchers c"
proof -
  let ?c0 = "loop toError passes Connect"
  obtain sw c2 where a: "authenticate (hs p) (connect ?c0) = (Some ErrSessionExpired, sw, c2)"
    and st2: "state c2 = StateExpired"
    using assms by (auto simp: authenticate_def)
  let ?c3 = "invalidateWatches ErrSessionExpired c2"
  obtain c s rr where f: "fold (pipeline_step toError) (schedule p)
      (?c3, False, Some ErrSessionExpired) = (c, s, rr)"
    by (cases "fold (pipeline_step toError) (schedule p) (?c3, False, Some ErrSessionExpired)")
  note run = stopped_schedule [OF f]
  have pb: "pass_body toError p ?c0 = (ErrSessionExpired, c)"
    using f run by (simp add: pass_body_def a run_schedule_def Let_def)
  have lp: "loop_pass toError p ?c0 =
      flushRequests ErrSessionExpired (setState StateDisconnected c)"
    by (simp add: loop_pass_def pb)
  have ok0: "registry_ok ?c0"
    by (rule registry_ok_loop [OF registry_ok_Connect])
  then have "registry_ok (connect ?c0)"
    by (rule registry_ok_frame) simp_all
  then have "registry_ok (snd (snd (authenticate (hs p) (connect ?c0))))"
    by (rule registry_ok_frame) simp_all
  then have ok2: "registry_ok c2"
    by (simp add: a)
  have w2: "watchers c2 = watchers ?c0"
    using authenticate_fields(1) [of "hs p" "connect ?c0"] by (simp add: a)
  have "registry_ok (snd (pass_body toError p ?c0))"
    using ok0 by (rule registry_ok_pass_body)
  then have okc: "registry_ok c"
    by (simp add: pb)
  have st3: "state ?c3 = StateExpired"
    using st2 by (simp add: invalidateWatches_def caller_state)
  have ev: "sink_events c ch = [NotWatching (fst pw) ErrSessionExpired]"
    if "pw \<in> set (watchers ?c0)" "ch \<in> set (sinks_of (snd pw))" for pw ch
    using invalidateWatches_registry [of c2 "fst pw" "snd pw" ch ErrSessionExpired] ok2 that w2 run
    by (simp add: sink_events_def)
  have ev': "sink_events (flushRequests ErrSessionExpired (setState StateDisconnected c)) ch =
      sink_events c ch" for ch
    by (simp add: sink_events_def)
  have gone: "ch \<notin> set (registered_sinks (watchers c))"
    if "pw \<in> set (watchers ?c0)" "ch \<in> set (sinks_of (snd pw))" for pw ch
    using ev [OF that] okc by (auto simp: registry_ok_def list_all_iff)
  have keys: "fst ` set (watchers c) = {path. \<exists>wt. Watch path wt \<in> set (schedule p)}"
    using run by simp
  have empty: "watchers c = []" if "\<forall>path wt. Watch path wt \<notin> set (schedule p)"
    using keys that by simp
  have stc: "state c = StateExpired"
    using run st3 by simp
  show ?thesis
    unfolding Let_def pb prod.case lp
    using ev ev' gone keys empty stc by simp
qed

theorem watches_invalidated_on_expiry_witness:
  "let c0 = loop (\<lambda>_. ErrNoNode)
             [\<lparr>hs = Reply \<lparr>TimeOut = 4000, SessionId = 7, Passwd = []\<rparr>,
               schedule = [Watch ''/a'' watcherTypeData, Watch ''/a'' watcherTypeChild]\<rparr>]
             Connect;
       p = \<lparr>hs = Reply \<lparr>TimeOut = 0, SessionId = 0, Passwd = []\<rparr>,
            schedule = [Queue opGetData]\<rparr>;
       (err, c) = pass_body (\<lambda>_. ErrNoNode) p c0;
       c' = loop_pass (\<lambda>_. ErrNoNode) p c0
   in watchers c0 = [(''/a'', \<lparr>dataWatchers = [0], existWatchers = [], childWatchers = [1]\<rparr>)]
      \<and> (\<forall>path wt. Watch path wt \<notin> set (schedule p))
      \<and> err = ErrSessionExpired \<and> state c = StateExpired
      \<and> watchers c = [] \<and> watchers c' = []
      \<and> sink_events c 0 = [NotWatching ''/a'' ErrSessionExpired]
      \<and> sink_events c 1 = [NotWatching ''/a'' ErrSessionExpired]
      \<and> sink_events c' 0 = [NotWatching ''/a'' ErrSessionExpired]
      \<and> sink_events c' 1 = [NotWatching ''/a'' ErrSessionExpired]"
proof -
  have w: "watchers (loop (\<lambda>_. ErrNoNode)
             [\<lparr>hs = Reply \<lparr>TimeOut = 4000, SessionId = 7, Passwd = []\<rparr>,
               schedule = [Watch ''/a'' watcherTypeData, Watch ''/a'' watcherTypeChild]\<rparr>]
             Connect) =
      [(''/a'', \<lparr>dataWatchers = [0], existWatchers = [], childWatchers = [1]\<rparr>)]"
    by (simp add: loop_def loop_pass_def pass_body_def run_schedule_def authenticate_def
        addWatcher_def make_chan_def new_watchers_def Connect_def Let_def split: prod.splits)
  show ?thesis
    using watches_invalidated_on_expiry [of
        "\<lparr>hs = Reply \<lparr>TimeOut = 0, SessionId = 0, Passwd = []\<rparr>, schedule = [Queue opGetData]\<rparr>"
        "\<lparr>TimeOut = 0, SessionId = 0, Passwd = []\<rparr>"
        "\<lambda>_. ErrNoNode"
        "[\<lparr>hs = Reply \<lparr>TimeOut = 4000, SessionId = 7, Passwd = []\<rparr>,
               schedule = [Watch ''/a'' watcherTypeData, Watch ''/a'' watcherTypeChild]\<rparr>]"]
    by (simp add: w sinks_of_def Let_def split: prod.splits)
qed

section \<open>Outcomes on the completion sinks\<close>

text \<open>
  C1 does not hold of the code: a sink is sent two outcomes. One request is submitted
  and taken by the send pipeline; its write to the socket fails. The pipeline has put
  the request in the pending table before the write (line 392), sends the write error
  to the sink (line 397) and returns, leaving the entry in the table: when the body of
  the pass is over the request is pending and its sink (channel 0) has one outcome. The
  flush at the end of the pass (lines 223 to 225) sends ErrConnectionClosed to the same
  sink. The other paths that complete a request keep it out of the table: the send
  pipeline completes it before the insertion (lines 368 to 389), the receive pipeline
  after the removal (lines 502 to 516).
\<close>

theorem write_failure_then_flush:
  "let p = \<lparr>hs = Reply \<lparr>TimeOut = 4000, SessionId = 7, Passwd = []\<rparr>,
            schedule = [Queue opSetData,
                        SendReq \<lparr>headerErr = None, bodyErr = None,
                                 writeErr = Some (ErrOther ''broken pipe'')\<rparr>]\<rparr>;
       c = snd (pass_body (\<lambda>_. ErrNoNode) p Connect);
       c' = loop_pass (\<lambda>_. ErrNoNode) p Connect
   in map recvChan (pending c) = [0]
      \<and> deliveries c 0 = [Some (ErrOther ''broken pipe'')]
      \<and> deliveries c' 0 = [Some (ErrOther ''broken pipe''), Some ErrConnectionClosed]"
  by code_simp

text \<open>
  The outcomes are not confined to a response, ErrConnectionClosed and
  ErrSessionExpired either: a request whose body does not serialise is completed by the
  send pipeline with the serialisation error (lines 374 to 378). In this pass one
  request is submitted and taken by the send pipeline, no frame is received, and the
  request's sink (channel 0) is sent the error of the codec.
\<close>

lemma serialisation_error_delivered:
  "deliveries
     (loop_pass (\<lambda>_. ErrNoNode)
        \<lparr>hs = Reply \<lparr>TimeOut = 4000, SessionId = 7, Passwd = []\<rparr>,
         schedule = [Queue opSetData,
                     SendReq \<lparr>headerErr = None, bodyErr = Some (ErrOther ''encode error''),
                              writeErr = None\<rparr>]\<rparr>
        Connect) 0 = [Some (ErrOther ''encode error'')]"
  by (simp add: loop_pass_def pass_body_def run_schedule_def authenticate_def
      queueRequest_def new_request_def nextXid_def make_chan_def sendLoop_request_def
      deliveries_def Connect_def Let_def)

text \<open>
  A request can also be sent nothing at all. The first request is submitted before a
  session exists and gets xid 1; the handshake of the next pass obtains a session and
  resets the counter, so the second request gets xid 1 as well. The send pipeline puts
  both in the pending table under the same key: the second replaces the first, which
  is then neither queued nor pending, and the flush reaches the second only.
\<close>

lemma overwritten_request_is_sent_nothing:
  "(let c = loop (\<lambda>_. ErrNoNode)
              [\<lparr>hs = ReadFailed EOF, schedule = [Queue opGetData]\<rparr>,
               \<lparr>hs = Reply \<lparr>TimeOut = 4000, SessionId = 7, Passwd = []\<rparr>,
                schedule = [Queue opExists,
                            SendReq \<lparr>headerErr = None, bodyErr = None, writeErr = None\<rparr>,
                            SendReq \<lparr>headerErr = None, bodyErr = None, writeErr = None\<rparr>]\<rparr>]
              Connect
    in deliveries c 0 = [] \<and> deliveries c 1 = [Some ErrConnectionClosed]
       \<and> pending c = [])"
  by code_simp

text \<open>
  What holds of the runs in which no write of a request fails. Take any number of
  passes of the session loop from the initial connection and one more pass \<open>p\<close>; let
  \<open>c\<close> be the connection when the pipelines of \<open>p\<close> have stopped and \<open>c'\<close> the
  connection at the end of \<open>p\<close>. No sink has been sent more than one outcome. The
  sink of a request that is still queued or pending in \<open>c\<close> has been sent none. Every
  request pending in \<open>c\<close> is sent exactly one outcome by the flush, ErrSessionExpired
  or ErrConnectionClosed, and the table is empty afterwards. Every outcome sent is nil,
  ErrConnectionClosed, ErrSessionExpired, an error translated from a header's error
  code, or an error the codec reported when encoding the request or decoding the body.
\<close>

lemma completion_sinks:
  assumes "list_all no_write_failure (concat (map schedule (passes @ [p])))"
  shows "let c0 = loop toError passes Connect;
             (err, c) = pass_body toError p c0;
             c' = loop_pass toError p c0
         in (\<forall>ch. length (deliveries c ch) \<le> 1 \<and> length (deliveries c' ch) \<le> 1)
            \<and> (\<forall>req \<in> set (pending c). deliveries c (recvChan req) = [])
            \<and> (\<forall>xr \<in> set (requests c). deliveries c' (recvChan (snd xr)) =
                  [Some (if err \<noteq> ErrSessionExpired then ErrConnectionClosed
                         else ErrSessionExpired)])
            \<and> requests c' = []
            \<and> snd ` set (recvLog c') \<subseteq> outcomes toError (concat (map schedule (passes @ [p])))"
proof -
  define A where "A = outcomes toError (concat (map schedule (passes @ [p])))"
  define ok where "ok = (\<lambda>st. no_write_failure st \<and> set (codec_results st) \<subseteq> A)"
  have A: "{Some ErrConnectionClosed, Some ErrSessionExpired} \<union> Some ` range toError \<subseteq> A"
    by (auto simp: A_def outcomes_def)
  have "ok st" if "st \<in> set (concat (map schedule (passes @ [p])))" for st
    using that assms outcomes_steps [OF that, of toError]
    unfolding ok_def A_def list_all_iff by blast
  then have okps: "list_all (\<lambda>p. list_all ok (schedule p)) passes"
    and okp: "list_all ok (schedule p)"
    by (auto simp: list_all_iff)
  note st = sinks_sound_steps [OF A ok_def]
  have "delivered_in A Connect"
    by (simp add: delivered_in_def Connect_def)
  then have init: "sinks_sound A Connect"
    by (simp add: sinks_sound_def completion_ok_Connect)
  have c0: "sinks_sound A (loop toError passes Connect)"
    by (rule loop_invariant [where P = "sinks_sound A" and ok = ok, OF init okps st])
  let ?c0 = "loop toError passes Connect"
  obtain err c where pb: "pass_body toError p ?c0 = (err, c)"
    by (cases "pass_body toError p ?c0")
  have "sinks_sound A (snd (pass_body toError p ?c0))"
    by (rule pass_body_invariant [where P = "sinks_sound A" and ok = ok, OF c0 okp st(1-7)])
  then have c: "sinks_sound A c"
    by (simp add: pb)
  define e where "e = (if err \<noteq> ErrSessionExpired then ErrConnectionClosed else ErrSessionExpired)"
  let ?d = "setState StateDisconnected c"
  have lp: "loop_pass toError p ?c0 = flushRequests e ?d"
    by (auto simp: loop_pass_def pb e_def)
  have d: "sinks_sound A ?d"
    using c by (rule st(1))
  have c': "sinks_sound A (flushRequests e ?d)"
    using d by (rule st(8)) (simp add: e_def)
  have "completion_ok c" and "completion_ok (flushRequests e ?d)"
    using c c' by (simp_all add: sinks_sound_def)
  then have "distinct (map fst (recvLog c))"
    and "distinct (map fst (recvLog (flushRequests e ?d)))"
    unfolding completion_ok_def by blast+
  then have one: "length (deliveries c ch) \<le> 1
      \<and> length (deliveries (flushRequests e ?d) ch) \<le> 1" for ch
    using deliveries_at_most_one by blast
  have pend: "deliveries c (recvChan req) = []" if "req \<in> set (pending c)" for req
    using c that by (auto simp: sinks_sound_def completion_ok_def list_all_iff)
  have fl: "deliveries (flushRequests e ?d) (recvChan (snd xr)) = [Some e]"
    if "xr \<in> set (requests c)" for xr
    using flushRequests_delivers [of ?d xr e] d that by (simp add: sinks_sound_def)
  have vals: "snd ` set (recvLog (flushRequests e ?d)) \<subseteq> A"
    using c' by (simp add: sinks_sound_def delivered_in_def)
  show ?thesis
    unfolding Let_def pb prod.case lp A_def [symmetric] e_def [symmetric]
    using one pend fl vals by simp
qed

lemma completion_sinks_witness:
  "let p = \<lparr>hs = Reply \<lparr>TimeOut = 4000, SessionId = 7, Passwd = []\<rparr>,
            schedule = [Queue opGetData, Queue opExists,
                        SendReq \<lparr>headerErr = None, bodyErr = None, writeErr = None\<rparr>,
                        SendReq \<lparr>headerErr = None, bodyErr = None, writeErr = None\<rparr>,
                        Recv (Inr \<lparr>header = Inr \<lparr>Xid = 1, Zxid = 3, ErrCode = 0\<rparr>,
                                   event = Inl EOF, body = None\<rparr>)]\<rparr>;
       c = snd (pass_body (\<lambda>_. ErrNoNode) p Connect);
       c' = loop_pass (\<lambda>_. ErrNoNode) p Connect
   in list_all no_write_failure (schedule p)
      \<and> map fst (requests c) = [2] \<and> deliveries c 0 = [None] \<and> deliveries c 1 = []
      \<and> requests c' = [] \<and> deliveries c' 0 = [None]
      \<and> deliveries c' 1 = [Some ErrConnectionClosed]
      \<and> (\<forall>ch. length (deliveries c' ch) \<le> 1)"
proof -
  let ?p = "\<lparr>hs = Reply \<lparr>TimeOut = 4000, SessionId = 7, Passwd = []\<rparr>,
            schedule = [Queue opGetData, Queue opExists,
                        SendReq \<lparr>headerErr = None, bodyErr = None, writeErr = None\<rparr>,
                        SendReq \<lparr>headerErr = None, bodyErr = None, writeErr = None\<rparr>,
                        Recv (Inr \<lparr>header = Inr \<lparr>Xid = 1, Zxid = 3, ErrCode = 0\<rparr>,
                                   event = Inl EOF, body = None\<rparr>)]\<rparr>"
  let ?c = "snd (pass_body (\<lambda>_. ErrNoNode) ?p Connect)"
  let ?c' = "loop_pass (\<lambda>_. ErrNoNode) ?p Connect"
  have h: "list_all no_write_failure (concat (map schedule ([] @ [?p])))"
    by simp
  have one: "\<forall>ch. length (deliveries ?c' ch) \<le> 1"
    using completion_sinks [OF h, where toError = "\<lambda>_. ErrNoNode"]
    by (auto simp: Let_def loop_def split: prod.splits)
  have ev: "list_all no_write_failure (schedule ?p)
      \<and> map fst (requests ?c) = [2] \<and> deliveries ?c 0 = [None] \<and> deliveries ?c 1 = []
      \<and> requests ?c' = [] \<and> deliveries ?c' 0 = [None]
      \<and> deliveries ?c' 1 = [Some ErrConnectionClosed]"
    by code_simp
  show ?thesis
    unfolding Let_def using ev one by blast
qed

section \<open>Protected ephemeral-sequential create\<close>

text \<open>
  C7, as the claim states it, fails. The first create completes with
  ErrConnectionClosed and the second would succeed. When the listing of the children
  fails, the function returns the listing's error at once: no child matched, yet the
  second create is never issued. (When the listing succeeds and is empty, the second
  create is issued and its path returned.)
\<close>

theorem listing_failure_not_retried:
  "CreateProtectedEphemeralSequential (Inr [0, 1, 2, 3, 4, 5, 6, 7, 8, 9, 10, 11, 12, 13, 14, 15])
      (\<lambda>i. if i = 0 then ([], Some ErrConnectionClosed)
           else (''/p/_c_000102030405060708090a0b0c0d0e0f-job0000000001'', None))
      (\<lambda>i. ([], Some ErrConnectionClosed))
      ''/p/job'' [] () =
     (Return [] (Some ErrConnectionClosed),
      [Create_call ''/p/_c_000102030405060708090a0b0c0d0e0f-job'' [] ()
         {FlagEphemeral, FlagSequence},
       Children_call ''/p''])
   \<and> CreateProtectedEphemeralSequential
      (Inr [0, 1, 2, 3, 4, 5, 6, 7, 8, 9, 10, 11, 12, 13, 14, 15])
      (\<lambda>i. if i = 0 then ([], Some ErrConnectionClosed)
           else (''/p/_c_000102030405060708090a0b0c0d0e0f-job0000000001'', None))
      (\<lambda>i. ([], None))
      ''/p/job'' [] () =
     (Return ''/p/_c_000102030405060708090a0b0c0d0e0f-job0000000001'' None,
      [Create_call ''/p/_c_000102030405060708090a0b0c0d0e0f-job'' [] ()
         {FlagEphemeral, FlagSequence},
       Children_call ''/p'',
       Create_call ''/p/_c_000102030405060708090a0b0c0d0e0f-job'' [] ()
         {FlagEphemeral, FlagSequence}])"
  by code_simp

text \<open>
  C7, amended. With a guid of 16 bytes, and listings in which no basename that begins
  with the marker is shorter than 35 characters, the function does what the
  specification's recovery does: the final path component gets the prefix \<open>_c_\<close>, the
  guid as 32 lower-case hex digits and \<open>-\<close>; every create is issued on that path with
  the flags ephemeral and sequence; there are at most three attempts; after
  ErrSessionExpired the next attempt follows without a listing; after
  ErrConnectionClosed the children of the parent are listed, a failed listing returns
  its error at once, the first child that embeds the guid is returned as parent, \<open>/\<close>
  and child with a nil error, and without such a child the next attempt follows; a
  create that succeeds returns the created path; any other error is returned at once;
  after three attempts the error of the last create is returned.
\<close>

theorem protected_create_recovery:
  assumes "length guid = 16" and "\<forall>i<3. safe_children (fst (children i))"
  shows "CreateProtectedEphemeralSequential (Inr guid) create children path data acl =
           spec_protected_create guid create children path data acl
         \<and> length (Sprintf_x guid) = 32
         \<and> set (Sprintf_x guid) \<subseteq> set ''0123456789abcdef''"
proof -
  have a: "attempts create children g r pp data acl 0 3 None =
           spec_attempts create children g r pp data acl [0, 1, 2] None" for g r pp
  proof -
    have u: "[0..<0 + 3] = [0, 1, 2 :: nat]"
      by code_simp
    have "\<forall>j. 0 \<le> j \<and> j < 0 + 3 \<longrightarrow> safe_children (fst (children j))"
      using assms(2) by simp
    then show ?thesis
      using attempts_spec [of 0 3 children create g r pp data acl None] unfolding u by blast
  qed
  have "CreateProtectedEphemeralSequential (Inr guid) create children path data acl =
           spec_protected_create guid create children path data acl"
    unfolding CreateProtectedEphemeralSequential_def spec_protected_create_def sum.case a
    using protected_paths [of path "protectedPrefix @ Sprintf_x guid @ ''-''"
        "\<lambda>r pp. spec_attempts create children (Sprintf_x guid) r pp data acl [0, 1, 2] None"]
    by (simp add: Let_def protectedPrefix_def)
  then show ?thesis
    using assms(1) Sprintf_x_hex [of guid] by (simp add: Sprintf_x_length)
qed

theorem protected_create_recovery_witness:
  "spec_protected_create [0, 1, 2, 3, 4, 5, 6, 7, 8, 9, 10, 11, 12, 13, 14, 15]
      (\<lambda>i. ([], Some ErrConnectionClosed))
      (\<lambda>i. ([''other'', ''_c_000102030405060708090a0b0c0d0e0f-job0000000007''], None))
      ''/p/job'' [] () =
     (Return ''/p/_c_000102030405060708090a0b0c0d0e0f-job0000000007'' None,
      [Create_call ''/p/_c_000102030405060708090a0b0c0d0e0f-job'' [] ()
         {FlagEphemeral, FlagSequence},
       Children_call ''/p''])"
proof -
  have h1: "length [0, 1, 2, 3, 4, 5, 6, 7, 8, 9, 10, 11, 12, 13, 14, 15 :: 8 word] = 16"
    by simp
  have h2: "\<forall>i<3. safe_children (fst ((\<lambda>i. ([''other'',
      ''_c_000102030405060708090a0b0c0d0e0f-job0000000007''], None :: error option)) i))"
    by (simp add: safe_children_def HasPrefix_def)
  have ev: "CreateProtectedEphemeralSequential
      (Inr [0, 1, 2, 3, 4, 5, 6, 7, 8, 9, 10, 11, 12, 13, 14, 15])
      (\<lambda>i. ([], Some ErrConnectionClosed))
      (\<lambda>i. ([''other'', ''_c_000102030405060708090a0b0c0d0e0f-job0000000007''], None))
      ''/p/job'' [] () =
     (Return ''/p/_c_000102030405060708090a0b0c0d0e0f-job0000000007'' None,
      [Create_call ''/p/_c_000102030405060708090a0b0c0d0e0f-job'' [] ()
         {FlagEphemeral, FlagSequence},
       Children_call ''/p''])"
    by code_simp
  show ?thesis
    using protected_create_recovery [OF h1 h2, of "\<lambda>i. ([], Some ErrConnectionClosed)"
        "''/p/job''" "[]" "()"] ev
    by simp
qed

section \<open>The slice of the guid\<close>

text \<open>
  C10 does not hold of the code. The scan slices the basename from offset 3 to offset
  35 as soon as the basename begins with the marker, whatever its length: for the child
  \<open>_c_abc\<close> the slice is out of range and the call ends in a run-time panic.
\<close>

theorem short_protected_child_panics:
  "slice ''_c_abc'' (length protectedPrefix) (length protectedPrefix + 32) = None
   \<and> fst (CreateProtectedEphemeralSequential
        (Inr [0, 1, 2, 3, 4, 5, 6, 7, 8, 9, 10, 11, 12, 13, 14, 15])
        (\<lambda>i. ([], Some ErrConnectionClosed)) (\<lambda>i. ([''_c_abc''], None))
        ''/p/job'' [] ()) = Panic"
  by code_simp

end
